theory Spec2Isabelle
  imports Main "HOL-Library.AList"
begin

section \<open>The subscription controller of the client (controllers/subscription.ts)\<close>

text \<open>
  The class \<^verbatim>\<open>Subscription\<close> is a set of asynchronous methods that run on the single
  thread of a JavaScript event loop. The embedding keeps that structure:
  \<^item> the fields of the class and the collaborators it talks to (relayer, storage, logger,
    event emitter, the runtime's timers and clock) are one record \<open>state\<close>;
  \<^item> every asynchronous method is cut at its \<^verbatim>\<open>await\<close>s into synchronous sections:
    \<open>set_0\<close> is the part of \<^verbatim>\<open>set\<close> that runs at the call, \<open>set_1\<close> the part after the
    first \<^verbatim>\<open>await\<close>, and so on. A section runs to its end without interleaving;
  \<^item> a suspended call is a \<open>thread\<close>: the stack of the continuations (\<open>frame\<close>s) that wait
    for the awaited promise, and the kind of its outermost promise (\<open>root\<close>);
  \<^item> the promise job queue is the list \<open>microtasks\<close>, first in, first out;
  \<^item> a call to a collaborator (\<^verbatim>\<open>relayer.subscribe\<close>, \<^verbatim>\<open>relayer.unsubscribe\<close>,
    \<^verbatim>\<open>storage.setItem\<close>, \<^verbatim>\<open>storage.getItem\<close>) is logged in \<open>requests\<close> and parked in
    \<open>pending\<close>; the environment settles it later (\<open>settle\<close>) with a value or an error;
  \<^item> a \<^verbatim>\<open>throw\<close> rejects the promise of the method: the awaiting frame receives
    \<open>Inl error\<close>, and a promise nobody awaits records the error in \<open>unhandled\<close>.
\<close>

subsection \<open>Data (packages/types/src/subscription.ts)\<close>

type_synonym topic = string

datatype jsvalue = JNum int | JStr string | JBool bool

text \<open>
  \<^verbatim>\<open>Data\<close> and \<^verbatim>\<open>Partial<Data>\<close>: a JavaScript object, the list of its fields and their
  values in insertion order. \<open>field d k\<close> reads \<^verbatim>\<open>d[k]\<close>, and \<open>spread a b\<close> is the object
  literal \<^verbatim>\<open>{ ...a, ...b }\<close>: the fields of \<open>a\<close>, then each field of \<open>b\<close> in turn, assigned
  in place when the object has it already and added at the end otherwise.
\<close>

type_synonym data = "(string \<times> jsvalue) list"

definition field :: "data \<Rightarrow> string \<Rightarrow> jsvalue option" where
  "field d k = map_of d k"

definition spread :: "data \<Rightarrow> data \<Rightarrow> data" where
  "spread a b = fold (\<lambda>kv. AList.update (fst kv) (snd kv)) b a"

text \<open>
  \<^verbatim>\<open>SubscriptionOptions\<close>: the relayer's subscribe options (\<^verbatim>\<open>relay\<close>, the optional
  \<^verbatim>\<open>decryptKeys\<close>, both opaque here) and the optional \<^verbatim>\<open>expiry\<close>, a timestamp in ms.
\<close>

record options =
  relay :: string
  decryptKeys :: "string option"
  expiry :: "int option"

text \<open>\<^verbatim>\<open>SubscriptionParams<Data>\<close>, with fields \<^verbatim>\<open>id\<close>, \<^verbatim>\<open>topic\<close>, \<^verbatim>\<open>data\<close>, \<^verbatim>\<open>opts\<close>.\<close>

record params =
  p_id :: string
  p_topic :: topic
  p_data :: data
  p_opts :: options

text \<open>
  The errors the class throws are plain \<^verbatim>\<open>Error\<close>s told apart by their message:
  \<^verbatim>\<open>No matching <context> with topic: <topic>\<close> (\<open>NotFoundError\<close>),
  \<^verbatim>\<open>Decrypt params required for <context>\<close> (\<open>MissingDecryptParamsError\<close>),
  \<^verbatim>\<open>Restore will override already set <context>\<close> (\<open>RestoreConflictError\<close>).
  \<open>IOError\<close> is a rejection that comes from the relayer or the storage.
\<close>

datatype error =
    NotFoundError topic
  | MissingDecryptParamsError
  | RestoreConflictError
  | IOError string

datatype event =
    Created topic data
  | Updated topic data data
  | Deleted topic data string
  | Payload topic string
  | Enabled
  | Disabled

datatype level = LTrace | LDebug | LInfo | LError

text \<open>
  What is passed to the logger: a literal text, the \<^verbatim>\<open>{type: "method", method: m, ...}\<close>
  object of a method (its name is kept), the two lines of an event listener (the name
  of the event constant they print is kept), or an error.
\<close>

datatype message =
    Text string
  | Method string
  | Emitting string
  | EventData string
  | Thrown error

datatype request =
    Subscribe topic options
  | Unsubscribe string string "string option"
  | SetItem string "params list"
  | GetItem string

text \<open>The value a promise is fulfilled with.\<close>

datatype val =
    VUnit
  | VId string
  | VSub params
  | VData data
  | VItems "params list option"

type_synonym result = "error + val"

text \<open>
  The continuations. \<open>Set_1 t d os\<close> is \<^verbatim>\<open>set\<close> suspended at its first \<^verbatim>\<open>await\<close> with
  its locals; \<open>Replay_1\<close> is the arrow function of \<^verbatim>\<open>this.cached.map(async ...)\<close>
  suspended at its \<^verbatim>\<open>await this.subscribeAndSet(...)\<close>. The last three are the jobs
  that the runtime queues for its own promises: \<open>Adopt w\<close> is the job that follows the
  resolution of a promise with another promise, here the promise of \<^verbatim>\<open>isEnabled\<close> with
  the \<^verbatim>\<open>new Promise\<close> of the waiter \<open>w\<close>; \<open>Hop\<close> is the reaction that settles the outer
  promise when the inner one has settled, after which the frames below it continue;
  \<open>Element_1\<close> is the reaction of \<^verbatim>\<open>Promise.all\<close> to the promise of one of its elements.
\<close>

datatype frame =
    Init_1
  | Set_1 topic data options
  | Set_2 topic data
  | Get_1 topic
  | Get_2
  | Update_1 topic data
  | Update_2 topic data
  | Delete_1 topic string
  | Delete_2 topic string
  | Delete_3 topic string params
  | GetSubscription_1 topic
  | SubscribeAndSet_1 topic data options
  | Persist_1
  | Restore_1
  | Restore_2
  | Restore_3
  | Reset_1
  | Reset_2
  | Reset_3
  | Replay_1
  | Adopt nat
  | Hop
  | Element_1

text \<open>
  Who holds the outermost promise of a thread: a caller outside the class, numbered so
  that the result can be read back (\<open>Root\<close>); nobody, for a call whose promise is dropped
  (\<open>Detached\<close>); or the \<^verbatim>\<open>Promise.all\<close> with the given number (\<open>Child\<close>).
\<close>

datatype root = Root nat | Detached | Child nat

type_synonym thread = "frame list \<times> root"

record state =
  subscriptions :: "(topic \<times> params) list"
  timeout :: "(topic \<times> nat) list"
  cached :: "params list"
  encrypted :: bool
  subscription_context :: string
  storage_key :: string
  default_ttl :: int
  emitted :: "event list"
  waiting :: "(nat \<times> bool \<times> thread) list"
  fired :: "(nat \<times> thread) list"
  next_waiter :: nat
  logs :: "(level \<times> message) list"
  requests :: "request list"
  pending :: "(request \<times> thread) list"
  microtasks :: "(thread \<times> result) list"
  joins :: "(nat \<times> nat \<times> thread) list"
  next_join :: nat
  timers :: "(nat \<times> topic \<times> int) list"
  next_timer :: nat
  now :: int
  returned :: "(nat \<times> result) list"
  unhandled :: "error list"

text \<open>
  \<open>subscriptions\<close> and \<open>timeout\<close> are the two \<^verbatim>\<open>Map\<close>s of the class, as association lists
  in insertion order: \<^verbatim>\<open>Map.set\<close> is \<open>AList.update\<close> (in place for a present key, at the
  end for a new one), \<^verbatim>\<open>Map.delete\<close> is \<open>AList.delete\<close>, \<^verbatim>\<open>Map.get\<close> is \<open>map_of\<close>. The
  \<open>timeout\<close> map holds the handle of the timer of a topic; \<open>timers\<close> is the runtime's table
  of the timers that are still to fire: handle, topic of the callback, due time.
  \<open>default_ttl\<close> is the constant \<^verbatim>\<open>SUBSCRIPTION_DEFAULT_TTL\<close>, \<open>subscription_context\<close> what
  \<^verbatim>\<open>getSubscriptionContext()\<close> returns and \<open>storage_key\<close> what \<^verbatim>\<open>getStorageKey()\<close> returns;
  the three come from outside the class and never change. \<open>waiting\<close> are the listeners
  that \<^verbatim>\<open>isEnabled\<close> registered with \<^verbatim>\<open>events.once("enabled", ...)\<close>, in the order of
  their registration: the number of the waiter, whether the job \<open>Adopt\<close> of its promise
  has run, and the call that waits. \<open>fired\<close> are the waiters whose listener was called
  before that job ran.
\<close>

definition initial :: "bool \<Rightarrow> string \<Rightarrow> string \<Rightarrow> int \<Rightarrow> state" where
  "initial enc ctx key ttl =
     \<lparr>subscriptions = [], timeout = [], cached = [], encrypted = enc,
      subscription_context = ctx, storage_key = key, default_ttl = ttl,
      emitted = [], waiting = [], fired = [], next_waiter = 0, logs = [], requests = [],
      pending = [],
      microtasks = [], joins = [], next_join = 0, timers = [], next_timer = 0,
      now = 0, returned = [], unhandled = []\<rparr>"

definition has :: "('k \<times> 'v) list \<Rightarrow> 'k \<Rightarrow> bool" where
  "has m k = (map_of m k \<noteq> None)"

definition topics :: "state \<Rightarrow> topic list" where
  "topics s = map fst (subscriptions s)"

definition values_of :: "state \<Rightarrow> params list" where
  "values_of s = map snd (subscriptions s)"

subsection \<open>Promises and the job queue\<close>

text \<open>
  An \<^verbatim>\<open>await\<close> always suspends: the continuation runs in a later job, queued when the
  awaited promise settles (at once when it has settled already). A call without
  \<^verbatim>\<open>await\<close> runs the callee to its first \<^verbatim>\<open>await\<close> and goes on. Jobs run in the order in
  which they were queued. A promise that is resolved with another promise, and
  \<^verbatim>\<open>Promise.all\<close>, cost jobs of their own (\<open>Adopt\<close>, \<open>Hop\<close>, \<open>Element_1\<close>). No listener is
  registered on the event emitter but those of \<^verbatim>\<open>registerEventListeners\<close> and
  \<^verbatim>\<open>isEnabled\<close>; what is emitted is recorded in \<open>emitted\<close>.
\<close>

definition push :: "frame \<Rightarrow> thread \<Rightarrow> thread" where
  "push f thr = (f # fst thr, snd thr)"

definition enqueue :: "thread \<Rightarrow> result \<Rightarrow> state \<Rightarrow> state" where
  "enqueue thr r s = s\<lparr>microtasks := microtasks s @ [(thr, r)]\<rparr>"

text \<open>
  The reaction of the \<^verbatim>\<open>Promise.all\<close> number \<open>j\<close> to the promise of one of its elements:
  it rejects with the first rejection of an element and is fulfilled when the last
  element is; the frame that awaits it continues in a later job.
\<close>

definition resolveElement :: "nat \<Rightarrow> result \<Rightarrow> state \<Rightarrow> state" where
  "resolveElement j r s =
     (case map_of (joins s) j of
        None \<Rightarrow> s
      | Some (n, parent) \<Rightarrow>
          (case r of
             Inl e \<Rightarrow> enqueue parent (Inl e) (s\<lparr>joins := AList.delete j (joins s)\<rparr>)
           | Inr v \<Rightarrow>
               if n \<le> 1
               then enqueue parent (Inr VUnit) (s\<lparr>joins := AList.delete j (joins s)\<rparr>)
               else s\<lparr>joins := AList.update j (n - 1, parent) (joins s)\<rparr>))"

text \<open>
  The outermost promise of a thread settles: the caller outside reads the result, a
  dropped promise that rejects is an unhandled rejection, and the promise of an
  element of a \<^verbatim>\<open>Promise.all\<close> queues the reaction of the \<^verbatim>\<open>Promise.all\<close>.
\<close>

definition finish :: "root \<Rightarrow> result \<Rightarrow> state \<Rightarrow> state" where
  "finish ro r s =
     (case ro of
        Root c \<Rightarrow> s\<lparr>returned := returned s @ [(c, r)]\<rparr>
      | Detached \<Rightarrow>
          (case r of Inl e \<Rightarrow> s\<lparr>unhandled := unhandled s @ [e]\<rparr> | Inr v \<Rightarrow> s)
      | Child j \<Rightarrow> enqueue ([Element_1], Child j) r s)"

text \<open>
  An asynchronous function ends with result \<open>r\<close>; \<open>thr\<close> is what is left of the thread:
  the frame that awaits it continues in a later job.
\<close>

definition return_to :: "thread \<Rightarrow> result \<Rightarrow> state \<Rightarrow> state" where
  "return_to thr r s =
     (case fst thr of [] \<Rightarrow> finish (snd thr) r s | f # fs \<Rightarrow> enqueue thr r s)"

definition log :: "level \<Rightarrow> message \<Rightarrow> state \<Rightarrow> state" where
  "log l m s = s\<lparr>logs := logs s @ [(l, m)]\<rparr>"

definition io_request :: "request \<Rightarrow> thread \<Rightarrow> state \<Rightarrow> state" where
  "io_request q thr s = s\<lparr>requests := requests s @ [q], pending := pending s @ [(q, thr)]\<rparr>"

subsection \<open>The gate: isEnabled, enable, disable\<close>

text \<open>
  \<^verbatim>\<open>isEnabled\<close> is an \<^verbatim>\<open>async\<close> function. With an empty \<open>cached\<close> it returns at once and
  the caller continues in the next job. Otherwise it registers a listener for
  \<^verbatim>\<open>enabled\<close> and returns the \<^verbatim>\<open>new Promise\<close> that the listener resolves: its own promise
  is resolved with that promise, for which the runtime queues the job \<open>Adopt\<close>.
\<close>

definition isEnabled :: "thread \<Rightarrow> state \<Rightarrow> state" where
  "isEnabled thr s =
     (if cached s = [] then enqueue thr (Inr VUnit) s
      else enqueue ([Adopt (next_waiter s)], Detached) (Inr VUnit)
             (s\<lparr>waiting := waiting s @ [(next_waiter s, False, thr)],
                next_waiter := Suc (next_waiter s)\<rparr>))"

text \<open>
  The job \<open>Adopt w\<close> calls \<^verbatim>\<open>then\<close> on the promise of the waiter: when the listener has
  not been called yet, the reaction waits for it; when it has, the reaction \<open>Hop\<close> is
  queued at once.
\<close>

definition adopt :: "nat \<Rightarrow> state \<Rightarrow> state" where
  "adopt w s =
     (case map_of (waiting s) w of
        Some (a, thr) \<Rightarrow> s\<lparr>waiting := AList.update w (True, thr) (waiting s)\<rparr>
      | None \<Rightarrow>
          (case map_of (fired s) w of
             Some thr \<Rightarrow>
               enqueue (push Hop thr) (Inr VUnit) (s\<lparr>fired := AList.delete w (fired s)\<rparr>)
           | None \<Rightarrow> s))"

text \<open>
  \<^verbatim>\<open>events.emit("enabled")\<close>: every \<^verbatim>\<open>once\<close> listener is called in the order of
  registration, resolves the promise of its waiter and is removed. For a waiter whose
  job \<open>Adopt\<close> has run the reaction \<open>Hop\<close> is queued; the others are \<open>fired\<close>.
\<close>

definition emit_enabled :: "state \<Rightarrow> state" where
  "emit_enabled s =
     (s\<lparr>emitted := emitted s @ [Enabled], waiting := [],
        fired := fired s @
          map (\<lambda>w. (fst w, snd (snd w))) (filter (\<lambda>w. \<not> fst (snd w)) (waiting s)),
        microtasks := microtasks s @
          map (\<lambda>w. (push Hop (snd (snd w)), Inr VUnit)) (filter (\<lambda>w. fst (snd w)) (waiting s))\<rparr>)"

subsection \<open>Persistence and the listeners of registerEventListeners\<close>

definition persist_0 :: "thread \<Rightarrow> state \<Rightarrow> state" where
  "persist_0 thr s = io_request (SetItem (storage_key s) (values_of s)) (push Persist_1 thr) s"

definition persist_1 :: "thread \<Rightarrow> state \<Rightarrow> state" where
  "persist_1 thr s = return_to thr (Inr VUnit) s"

text \<open>
  \<^verbatim>\<open>events.emit\<close> of a lifecycle event: the event reaches the listeners (\<open>emitted\<close>), of
  which the class's own one logs two lines and calls \<^verbatim>\<open>this.persist()\<close>, dropping its
  promise. The \<^verbatim>\<open>deleted\<close> listener prints the name of the \<^verbatim>\<open>updated\<close> event and the
  \<^verbatim>\<open>payload\<close> listener that of the \<^verbatim>\<open>created\<close> event, as in the source.
\<close>

definition emit :: "event \<Rightarrow> state \<Rightarrow> state" where
  "emit ev s =
     (let s1 = s\<lparr>emitted := emitted s @ [ev]\<rparr> in
      case ev of
        Created t d \<Rightarrow>
          persist_0 ([], Detached)
            (log LDebug (EventData ''created'') (log LInfo (Emitting ''created'') s1))
      | Updated t d u \<Rightarrow>
          persist_0 ([], Detached)
            (log LDebug (EventData ''updated'') (log LInfo (Emitting ''updated'') s1))
      | Deleted t d r \<Rightarrow>
          persist_0 ([], Detached)
            (log LDebug (EventData ''updated'') (log LInfo (Emitting ''updated'') s1))
      | Payload t p \<Rightarrow>
          log LDebug (EventData ''created'') (log LInfo (Emitting ''created'') s1)
      | Enabled \<Rightarrow> emit_enabled s
      | Disabled \<Rightarrow> s1)"

definition enable :: "thread \<Rightarrow> state \<Rightarrow> state" where
  "enable thr s = enqueue thr (Inr VUnit) (emit Enabled (s\<lparr>cached := []\<rparr>))"

subsection \<open>getSubscription, update, get\<close>

definition getSubscription_0 :: "topic \<Rightarrow> thread \<Rightarrow> state \<Rightarrow> state" where
  "getSubscription_0 t thr s = isEnabled (push (GetSubscription_1 t) thr) s"

definition getSubscription_1 :: "topic \<Rightarrow> thread \<Rightarrow> state \<Rightarrow> state" where
  "getSubscription_1 t thr s =
     (case map_of (subscriptions s) t of
        None \<Rightarrow> return_to thr (Inl (NotFoundError t)) (log LError (Thrown (NotFoundError t)) s)
      | Some sub \<Rightarrow> return_to thr (Inr (VSub sub)) s)"

definition get_0 :: "topic \<Rightarrow> thread \<Rightarrow> state \<Rightarrow> state" where
  "get_0 t thr s = isEnabled (push (Get_1 t) thr) s"

definition get_1 :: "topic \<Rightarrow> thread \<Rightarrow> state \<Rightarrow> state" where
  "get_1 t thr s =
     getSubscription_0 t (push Get_2 thr)
       (log LTrace (Method ''get'') (log LDebug (Text ''Getting subscription'') s))"

definition get_2 :: "params \<Rightarrow> thread \<Rightarrow> state \<Rightarrow> state" where
  "get_2 sub thr s = return_to thr (Inr (VData (p_data sub))) s"

definition update_0 :: "topic \<Rightarrow> data \<Rightarrow> thread \<Rightarrow> state \<Rightarrow> state" where
  "update_0 t u thr s = isEnabled (push (Update_1 t u) thr) s"

definition update_1 :: "topic \<Rightarrow> data \<Rightarrow> thread \<Rightarrow> state \<Rightarrow> state" where
  "update_1 t u thr s =
     getSubscription_0 t (push (Update_2 t u) thr)
       (log LTrace (Method ''update'') (log LDebug (Text ''Updating subscription'') s))"

definition update_2 :: "topic \<Rightarrow> data \<Rightarrow> params \<Rightarrow> thread \<Rightarrow> state \<Rightarrow> state" where
  "update_2 t u sub thr s =
     (let d = spread (p_data sub) u;
          s1 = s\<lparr>subscriptions :=
                  AList.update t (sub\<lparr>p_topic := t, p_data := d\<rparr>) (subscriptions s)\<rparr>
      in return_to thr (Inr VUnit) (emit (Updated t d u) s1))"

subsection \<open>delete and the timers\<close>

definition delete_0 :: "topic \<Rightarrow> string \<Rightarrow> thread \<Rightarrow> state \<Rightarrow> state" where
  "delete_0 t r thr s = isEnabled (push (Delete_1 t r) thr) s"

definition delete_1 :: "topic \<Rightarrow> string \<Rightarrow> thread \<Rightarrow> state \<Rightarrow> state" where
  "delete_1 t r thr s =
     getSubscription_0 t (push (Delete_2 t r) thr)
       (log LTrace (Method ''delete'') (log LDebug (Text ''Deleting subscription'') s))"

definition delete_2 :: "topic \<Rightarrow> string \<Rightarrow> params \<Rightarrow> thread \<Rightarrow> state \<Rightarrow> state" where
  "delete_2 t r sub thr s =
     io_request (Unsubscribe (p_id sub) (relay (p_opts sub)) (decryptKeys (p_opts sub)))
       (push (Delete_3 t r sub) thr)
       (s\<lparr>subscriptions := AList.delete t (subscriptions s)\<rparr>)"

definition delete_3 :: "topic \<Rightarrow> string \<Rightarrow> params \<Rightarrow> thread \<Rightarrow> state \<Rightarrow> state" where
  "delete_3 t r sub thr s = return_to thr (Inr VUnit) (emit (Deleted t (p_data sub) r) s)"

text \<open>\<^verbatim>\<open>clearTimeout(h)\<close> of the runtime: the timer \<open>h\<close> will not fire.\<close>

definition clearTimeout :: "nat \<Rightarrow> state \<Rightarrow> state" where
  "clearTimeout h s = s\<lparr>timers := filter (\<lambda>tm. fst tm \<noteq> h) (timers s)\<rparr>"

definition deleteTimeout :: "topic \<Rightarrow> state \<Rightarrow> state" where
  "deleteTimeout t s =
     (if \<not> has (timeout s) t then s
      else case map_of (timeout s) t of None \<Rightarrow> s | Some h \<Rightarrow> clearTimeout h s)"

definition resetTimeout :: "state \<Rightarrow> state" where
  "resetTimeout s =
     (fold (\<lambda>th. clearTimeout (snd th)) (timeout s) s)\<lparr>timeout := []\<rparr>"

definition onTimeout :: "topic \<Rightarrow> state \<Rightarrow> state" where
  "onTimeout t s = delete_0 t ''Expired'' ([], Detached) (deleteTimeout t s)"

text \<open>
  The delay of the runtime's \<^verbatim>\<open>setTimeout(callback, delay)\<close>: a delay below 1 ms or
  above 2147483647 ms (the largest 32-bit signed integer, about 24.8 days) is set to
  1 ms.
\<close>

definition runtime_delay :: "int \<Rightarrow> int" where
  "runtime_delay ttl = (if 1 \<le> ttl \<and> ttl \<le> 2147483647 then ttl else 1)"

text \<open>
  \<^verbatim>\<open>setTimeout(topic, expiry)\<close> of the class; the runtime's \<^verbatim>\<open>setTimeout(callback, ttl)\<close>
  returns a new handle and fires the callback \<open>runtime_delay ttl\<close> ms from now.
\<close>

definition setTimeout :: "topic \<Rightarrow> int \<Rightarrow> state \<Rightarrow> state" where
  "setTimeout t e s =
     (if has (timeout s) t then s
      else let ttl = e - now s in
        if ttl \<le> 0 then onTimeout t s
        else s\<lparr>timers := timers s @ [(next_timer s, t, now s + runtime_delay ttl)],
               timeout := AList.update t (next_timer s) (timeout s),
               next_timer := Suc (next_timer s)\<rparr>)"

definition disable :: "thread \<Rightarrow> state \<Rightarrow> state" where
  "disable thr s =
     (let s1 = (if cached s = [] then s\<lparr>cached := values_of s\<rparr> else s)
      in enqueue thr (Inr VUnit) (emit Disabled (resetTimeout s1)))"

subsection \<open>subscribeAndSet, set\<close>

definition subscribeAndSet_0 :: "topic \<Rightarrow> data \<Rightarrow> options \<Rightarrow> thread \<Rightarrow> state \<Rightarrow> state" where
  "subscribeAndSet_0 t d os thr s =
     io_request (Subscribe t os) (push (SubscribeAndSet_1 t d os) thr) s"

text \<open>\<^verbatim>\<open>opts.expiry || Date.now() + SUBSCRIPTION_DEFAULT_TTL\<close>: an absent expiry and \<open>0\<close> are falsy.\<close>

definition resolve_expiry :: "options \<Rightarrow> state \<Rightarrow> int" where
  "resolve_expiry os s =
     (case expiry os of
        None \<Rightarrow> now s + default_ttl s
      | Some e \<Rightarrow> if e = 0 then now s + default_ttl s else e)"

definition subscribeAndSet_1 ::
  "topic \<Rightarrow> data \<Rightarrow> options \<Rightarrow> string \<Rightarrow> thread \<Rightarrow> state \<Rightarrow> state" where
  "subscribeAndSet_1 t d os i thr s =
     (let e = resolve_expiry os s;
          s1 = s\<lparr>subscriptions :=
                  AList.update t \<lparr>p_id = i, p_topic = t, p_data = d, p_opts = os\<rparr>
                    (subscriptions s)\<rparr>
      in return_to thr (Inr VUnit) (setTimeout t e s1))"

definition set_0 :: "topic \<Rightarrow> data \<Rightarrow> options \<Rightarrow> thread \<Rightarrow> state \<Rightarrow> state" where
  "set_0 t d os thr s = isEnabled (push (Set_1 t d os) thr) s"

definition set_1 :: "topic \<Rightarrow> data \<Rightarrow> options \<Rightarrow> thread \<Rightarrow> state \<Rightarrow> state" where
  "set_1 t d os thr s =
     (if has (subscriptions s) t
      then return_to thr (Inr VUnit) (update_0 t d ([], Detached) s)
      else
        let s1 = log LTrace (Method ''set'') (log LDebug (Text ''Setting subscription'') s) in
        if encrypted s \<and> decryptKeys os = None
        then return_to thr (Inl MissingDecryptParamsError)
               (log LError (Thrown MissingDecryptParamsError) s1)
        else subscribeAndSet_0 t d os (push (Set_2 t d) thr) s1)"

definition set_2 :: "topic \<Rightarrow> data \<Rightarrow> thread \<Rightarrow> state \<Rightarrow> state" where
  "set_2 t d thr s = return_to thr (Inr VUnit) (emit (Created t d) s)"

definition onPayload :: "topic \<Rightarrow> string \<Rightarrow> state \<Rightarrow> state" where
  "onPayload t p s = emit (Payload t p) s"

subsection \<open>restore, reset, init\<close>

text \<open>
  \<^verbatim>\<open>await Promise.all(this.cached.map(async subscription => ...))\<close>: every arrow function
  runs to its \<^verbatim>\<open>await\<close>, that is to the call of \<^verbatim>\<open>relayer.subscribe\<close>, in the order of
  \<open>cached\<close>; \<open>thr\<close> continues when all of them have ended.
\<close>

definition replay :: "thread \<Rightarrow> state \<Rightarrow> state" where
  "replay thr s =
     (let j = next_join s; cs = cached s in
      if cs = [] then enqueue thr (Inr VUnit) s
      else
        fold (\<lambda>sub. subscribeAndSet_0 (p_topic sub) (p_data sub) (p_opts sub)
                      ([Replay_1], Child j))
          cs
          (s\<lparr>next_join := Suc j, joins := AList.update j (length cs, thr) (joins s)\<rparr>))"

definition restore_0 :: "thread \<Rightarrow> state \<Rightarrow> state" where
  "restore_0 thr s = io_request (GetItem (storage_key s)) (push Restore_1 thr) s"

text \<open>The \<^verbatim>\<open>catch\<close> block of \<^verbatim>\<open>restore\<close>.\<close>

definition restore_catch :: "error \<Rightarrow> thread \<Rightarrow> state \<Rightarrow> state" where
  "restore_catch e thr s =
     return_to thr (Inr VUnit)
       (log LError (Thrown e)
          (log LDebug
             (Text (''Failed to Restore subscriptions for '' @ subscription_context s)) s))"

definition restore_1 :: "params list option \<Rightarrow> thread \<Rightarrow> state \<Rightarrow> state" where
  "restore_1 persisted thr s =
     (case persisted of
        None \<Rightarrow> return_to thr (Inr VUnit) s
      | Some ps \<Rightarrow>
          if ps = [] then return_to thr (Inr VUnit) s
          else if subscriptions s \<noteq> []
          then restore_catch RestoreConflictError thr
                 (log LError (Thrown RestoreConflictError) s)
          else replay (push Restore_2 thr) (s\<lparr>cached := ps\<rparr>))"

definition restore_2 :: "thread \<Rightarrow> state \<Rightarrow> state" where
  "restore_2 thr s = enable (push Restore_3 thr) s"

definition restore_3 :: "thread \<Rightarrow> state \<Rightarrow> state" where
  "restore_3 thr s =
     return_to thr (Inr VUnit)
       (log LTrace (Method ''restore'')
          (log LDebug
             (Text (''Successfully Restored subscriptions for '' @ subscription_context s)) s))"

definition reset_0 :: "thread \<Rightarrow> state \<Rightarrow> state" where
  "reset_0 thr s = disable (push Reset_1 thr) s"

definition reset_1 :: "thread \<Rightarrow> state \<Rightarrow> state" where
  "reset_1 thr s = replay (push Reset_2 thr) s"

definition reset_2 :: "thread \<Rightarrow> state \<Rightarrow> state" where
  "reset_2 thr s = enable (push Reset_3 thr) s"

definition reset_3 :: "thread \<Rightarrow> state \<Rightarrow> state" where
  "reset_3 thr s = return_to thr (Inr VUnit) s"

definition init_0 :: "thread \<Rightarrow> state \<Rightarrow> state" where
  "init_0 thr s = restore_0 (push Init_1 thr) (log LTrace (Text ''Initialized'') s)"

definition init_1 :: "thread \<Rightarrow> state \<Rightarrow> state" where
  "init_1 thr s = return_to thr (Inr VUnit) s"

subsection \<open>The event loop\<close>

text \<open>
  The runtime's own jobs apart, a frame continues with the result of the promise it
  awaited. A rejection is rethrown
  at the \<^verbatim>\<open>await\<close>: \<^verbatim>\<open>restore\<close> catches it, every other method rejects in turn. The
  branches that return \<open>s\<close> stand for a promise fulfilled with a value of another type
  than its declaration, which \<open>settle\<close> does not deliver.
\<close>

definition resume :: "frame \<Rightarrow> thread \<Rightarrow> result \<Rightarrow> state \<Rightarrow> state" where
  "resume f thr r s =
     (case f of
        Adopt w \<Rightarrow> adopt w s
      | Hop \<Rightarrow> enqueue thr r s
      | Element_1 \<Rightarrow> (case snd thr of Child j \<Rightarrow> resolveElement j r s | _ \<Rightarrow> s)
      | _ \<Rightarrow>
     (case r of
        Inl e \<Rightarrow>
          (case f of
             Restore_1 \<Rightarrow> restore_catch e thr s
           | Restore_2 \<Rightarrow> restore_catch e thr s
           | Restore_3 \<Rightarrow> restore_catch e thr s
           | _ \<Rightarrow> return_to thr (Inl e) s)
      | Inr v \<Rightarrow>
          (case f of
             Init_1 \<Rightarrow> init_1 thr s
           | Set_1 t d os \<Rightarrow> set_1 t d os thr s
           | Set_2 t d \<Rightarrow> set_2 t d thr s
           | Get_1 t \<Rightarrow> get_1 t thr s
           | Get_2 \<Rightarrow> (case v of VSub sub \<Rightarrow> get_2 sub thr s | _ \<Rightarrow> s)
           | Update_1 t u \<Rightarrow> update_1 t u thr s
           | Update_2 t u \<Rightarrow> (case v of VSub sub \<Rightarrow> update_2 t u sub thr s | _ \<Rightarrow> s)
           | Delete_1 t r \<Rightarrow> delete_1 t r thr s
           | Delete_2 t r \<Rightarrow> (case v of VSub sub \<Rightarrow> delete_2 t r sub thr s | _ \<Rightarrow> s)
           | Delete_3 t r sub \<Rightarrow> delete_3 t r sub thr s
           | GetSubscription_1 t \<Rightarrow> getSubscription_1 t thr s
           | SubscribeAndSet_1 t d os \<Rightarrow>
               (case v of VId i \<Rightarrow> subscribeAndSet_1 t d os i thr s | _ \<Rightarrow> s)
           | Persist_1 \<Rightarrow> persist_1 thr s
           | Restore_1 \<Rightarrow> (case v of VItems persisted \<Rightarrow> restore_1 persisted thr s | _ \<Rightarrow> s)
           | Restore_2 \<Rightarrow> restore_2 thr s
           | Restore_3 \<Rightarrow> restore_3 thr s
           | Reset_1 \<Rightarrow> reset_1 thr s
           | Reset_2 \<Rightarrow> reset_2 thr s
           | Reset_3 \<Rightarrow> reset_3 thr s
           | Replay_1 \<Rightarrow> return_to thr (Inr VUnit) s
           | _ \<Rightarrow> s)))"

text \<open>One job of the queue.\<close>

definition tick :: "state \<Rightarrow> state" where
  "tick s =
     (case microtasks s of
        [] \<Rightarrow> s
      | (thr, r) # q \<Rightarrow>
          (case fst thr of
             [] \<Rightarrow> finish (snd thr) r (s\<lparr>microtasks := q\<rparr>)
           | f # fs \<Rightarrow> resume f (fs, snd thr) r (s\<lparr>microtasks := q\<rparr>)))"

text \<open>The value that fulfils the promise of a request has the type the interface declares.\<close>

definition accepts :: "request \<Rightarrow> result \<Rightarrow> bool" where
  "accepts q r =
     (case r of
        Inl e \<Rightarrow> True
      | Inr v \<Rightarrow>
          (case q of
             Subscribe t os \<Rightarrow> (case v of VId i \<Rightarrow> True | _ \<Rightarrow> False)
           | Unsubscribe i rl k \<Rightarrow> v = VUnit
           | SetItem key ps \<Rightarrow> v = VUnit
           | GetItem key \<Rightarrow> (case v of VItems ps \<Rightarrow> True | _ \<Rightarrow> False)))"

text \<open>The environment settles the \<open>k\<close>-th pending request with \<open>r\<close>.\<close>

definition settle :: "nat \<Rightarrow> result \<Rightarrow> state \<Rightarrow> state" where
  "settle k r s =
     (if k < length (pending s) \<and> accepts (fst (pending s ! k)) r
      then enqueue (snd (pending s ! k)) r
             (s\<lparr>pending := take k (pending s) @ drop (Suc k) (pending s)\<rparr>)
      else s)"

text \<open>The runtime fires the timer \<open>h\<close>, whose callback is \<^verbatim>\<open>() => this.onTimeout(topic)\<close>.\<close>

definition fire :: "nat \<Rightarrow> state \<Rightarrow> state" where
  "fire h s =
     (case map_of (timers s) h of
        None \<Rightarrow> s
      | Some (t, due) \<Rightarrow>
          if due \<le> now s then onTimeout t (clearTimeout h s) else s)"

definition advance :: "int \<Rightarrow> state \<Rightarrow> state" where
  "advance dt s = (if 0 \<le> dt then s\<lparr>now := now s + dt\<rparr> else s)"

text \<open>The relayer emits \<^verbatim>\<open>connect\<close>: the listener calls \<^verbatim>\<open>this.reset()\<close> and drops its promise.\<close>

definition connect :: "state \<Rightarrow> state" where
  "connect s = reset_0 ([], Detached) s"

text \<open>The relayer delivers a payload to the handler given to \<^verbatim>\<open>subscribe\<close>.\<close>

definition deliver :: "topic \<Rightarrow> string \<Rightarrow> state \<Rightarrow> state" where
  "deliver t p s = onPayload t p s"

text \<open>A caller outside the class calls a public method and keeps the promise \<open>c\<close>.\<close>

definition call_init :: "nat \<Rightarrow> state \<Rightarrow> state" where
  "call_init c s = init_0 ([], Root c) s"

definition call_set :: "nat \<Rightarrow> topic \<Rightarrow> data \<Rightarrow> options \<Rightarrow> state \<Rightarrow> state" where
  "call_set c t d os s = set_0 t d os ([], Root c) s"

definition call_get :: "nat \<Rightarrow> topic \<Rightarrow> state \<Rightarrow> state" where
  "call_get c t s = get_0 t ([], Root c) s"

definition call_update :: "nat \<Rightarrow> topic \<Rightarrow> data \<Rightarrow> state \<Rightarrow> state" where
  "call_update c t u s = update_0 t u ([], Root c) s"

definition call_delete :: "nat \<Rightarrow> topic \<Rightarrow> string \<Rightarrow> state \<Rightarrow> state" where
  "call_delete c t r s = delete_0 t r ([], Root c) s"

subsection \<open>Undisturbed runs of the public methods\<close>

text \<open>
  A caller calls a method and nothing else happens until its promise settles: the jobs
  of the call run one after the other, and the relayer answers the one request that
  \<^verbatim>\<open>set\<close> (with the subscription id \<open>i\<close>) and \<^verbatim>\<open>delete\<close> make, which is the last of
  \<open>pending\<close> when it is made. \<open>run_set\<close> is the run on a topic that the store does not
  hold and whose expiry has not passed; \<open>run_set_present\<close> the run on a topic that the
  store holds.
\<close>

definition run_set :: "nat \<Rightarrow> topic \<Rightarrow> data \<Rightarrow> options \<Rightarrow> string \<Rightarrow> state \<Rightarrow> state" where
  "run_set c t d os i s =
     tick (tick (settle (length (pending s)) (Inr (VId i)) (tick (call_set c t d os s))))"

definition run_set_present :: "nat \<Rightarrow> topic \<Rightarrow> data \<Rightarrow> options \<Rightarrow> state \<Rightarrow> state" where
  "run_set_present c t d os s = tick (tick (tick (tick (call_set c t d os s))))"

definition run_get :: "nat \<Rightarrow> topic \<Rightarrow> state \<Rightarrow> state" where
  "run_get c t s = tick (tick (tick (call_get c t s)))"

definition run_update :: "nat \<Rightarrow> topic \<Rightarrow> data \<Rightarrow> state \<Rightarrow> state" where
  "run_update c t u s = tick (tick (tick (call_update c t u s)))"

definition run_delete :: "nat \<Rightarrow> topic \<Rightarrow> string \<Rightarrow> state \<Rightarrow> state" where
  "run_delete c t r s =
     tick (settle (length (pending s)) (Inr VUnit) (tick (tick (tick (call_delete c t r s)))))"

text \<open>
  \<^verbatim>\<open>init\<close> on a controller that replays nothing: the storage answers the \<^verbatim>\<open>getItem\<close> of
  \<^verbatim>\<open>restore\<close> with \<open>persisted\<close>, then \<^verbatim>\<open>restore\<close> and \<^verbatim>\<open>init\<close> return.
\<close>

definition run_init :: "nat \<Rightarrow> params list option \<Rightarrow> state \<Rightarrow> state" where
  "run_init c persisted s =
     tick (tick (settle (length (pending s)) (Inr (VItems persisted)) (call_init c s)))"

subsection \<open>Reachable states and the two invariants\<close>

text \<open>
  Every state of a controller: the constructor's state, then any call of a public
  method (\<^verbatim>\<open>deleteTimeout\<close> and \<^verbatim>\<open>resetTimeout\<close> are public too), any job of the queue,
  any answer of a collaborator, any timer that fires, any tick of the clock, any
  \<^verbatim>\<open>connect\<close> and any payload, in any order. The fields \<^verbatim>\<open>subscriptions\<close> and \<^verbatim>\<open>events\<close>
  are public as well; code outside the class is taken to read them only.
\<close>

inductive reachable :: "state \<Rightarrow> bool" where
  r_initial: "reachable (initial enc ctx key ttl)"
| r_init: "reachable s \<Longrightarrow> reachable (call_init c s)"
| r_set: "reachable s \<Longrightarrow> reachable (call_set c t d os s)"
| r_get: "reachable s \<Longrightarrow> reachable (call_get c t s)"
| r_update: "reachable s \<Longrightarrow> reachable (call_update c t u s)"
| r_delete: "reachable s \<Longrightarrow> reachable (call_delete c t r s)"
| r_deleteTimeout: "reachable s \<Longrightarrow> reachable (deleteTimeout t s)"
| r_resetTimeout: "reachable s \<Longrightarrow> reachable (resetTimeout s)"
| r_tick: "reachable s \<Longrightarrow> reachable (tick s)"
| r_settle: "reachable s \<Longrightarrow> reachable (settle k res s)"
| r_fire: "reachable s \<Longrightarrow> reachable (fire h s)"
| r_advance: "reachable s \<Longrightarrow> reachable (advance dt s)"
| r_connect: "reachable s \<Longrightarrow> reachable (connect s)"
| r_deliver: "reachable s \<Longrightarrow> reachable (deliver t p s)"

text \<open>The timers of topic \<open>t\<close> that are still to fire.\<close>

definition live :: "topic \<Rightarrow> state \<Rightarrow> (nat \<times> topic \<times> int) list" where
  "live t s = filter (\<lambda>tm. fst (snd tm) = t) (timers s)"

text \<open>Every timer still to fire is the one that the \<open>timeout\<close> map holds for its topic.\<close>

definition timers_ok :: "state \<Rightarrow> bool" where
  "timers_ok s =
     (list_all (\<lambda>tm. map_of (timeout s) (fst (snd tm)) = Some (fst tm)) (timers s) \<and>
      list_all (\<lambda>tm. fst tm < next_timer s) (timers s) \<and>
      distinct (map fst (timers s)))"

text \<open>The part of the state that the two invariants read.\<close>

definition core ::
  "state \<Rightarrow> (topic \<times> params) list \<times> (topic \<times> nat) list \<times> (nat \<times> topic \<times> int) list \<times> nat" where
  "core s = (subscriptions s, timeout s, timers s, next_timer s)"

text \<open>One record per topic in the store, and the timers are those of the \<open>timeout\<close> map.\<close>

definition controller_inv :: "state \<Rightarrow> bool" where
  "controller_inv s = (distinct (map fst (subscriptions s)) \<and> timers_ok s)"

subsection \<open>Example states\<close>

definition ex_opts :: options where
  "ex_opts = \<lparr>relay = ''{}'', decryptKeys = None, expiry = None\<rparr>"

definition ex_initial :: state where
  "ex_initial = initial False ''session'' ''wc@2:client//session'' 1000"

definition ex_encrypted :: state where
  "ex_encrypted = initial True ''session'' ''wc@2:client//session'' 1000"

text \<open>\<^verbatim>\<open>set("topicA", {x: 1}, {relay: {}})\<close> on a new controller, answered with \<^verbatim>\<open>"id1"\<close>.\<close>

definition ex_one :: state where
  "ex_one = run_set 0 ''topicA'' [(''x'', JNum 1)] ex_opts ''id1'' ex_initial"


text \<open>The same controller while it replays its subscription after a \<^verbatim>\<open>connect\<close>.\<close>

definition ex_replaying :: state where
  "ex_replaying = tick (connect ex_one)"

text \<open>The clock is at 10, and \<^verbatim>\<open>set\<close> with the expiry 5 has just returned.\<close>

definition ex_past_opts :: options where
  "ex_past_opts = \<lparr>relay = ''{}'', decryptKeys = None, expiry = Some 5\<rparr>"

definition ex_late :: state where
  "ex_late = advance 10 ex_initial"

definition ex_expired :: state where
  "ex_expired =
     tick (tick (tick (settle 0 (Inr (VId ''id1''))
       (tick (call_set 0 ''topicA'' [(''x'', JNum 1)] ex_past_opts ex_late)))))"

text \<open>The caller of that \<^verbatim>\<open>set\<close> calls \<^verbatim>\<open>get\<close> as soon as \<^verbatim>\<open>set\<close> has returned.\<close>

definition ex_expired_get :: state where
  "ex_expired_get = tick (tick (tick (tick (tick (call_get 1 ''topicA'' ex_expired)))))"

text \<open>The timer of \<open>ex_one\<close> fires when its time has come.\<close>

definition ex_fired :: state where
  "ex_fired = fire 0 (advance 1000 ex_one)"

text \<open>The storage rejects the \<^verbatim>\<open>setItem\<close> that followed the \<^verbatim>\<open>created\<close> event of \<open>ex_one\<close>.\<close>

definition ex_persist_failed :: state where
  "ex_persist_failed = tick (settle 0 (Inl (IOError ''quota exceeded'')) ex_one)"

text \<open>\<^verbatim>\<open>init\<close> on \<open>ex_one\<close>, whose store holds a record, when the storage holds nothing.\<close>

definition ex_restore_none :: state where
  "ex_restore_none = run_init 1 None ex_one"

text \<open>Two expiries that have passed are armed for a topic, one after the other.\<close>

definition ex_armed_twice :: state where
  "ex_armed_twice = setTimeout ''topicA'' 3 (setTimeout ''topicA'' 5 ex_late)"



text \<open>
  \<^verbatim>\<open>set("topicA", {y: 2}, {relay: {}})\<close> and \<^verbatim>\<open>update("topicA", {y: 2})\<close> on \<open>ex_one\<close>, whose
  store holds \<^verbatim>\<open>topicA\<close>, after the first job of the call.
\<close>

definition ex_set_present :: state where
  "ex_set_present = tick (call_set 1 ''topicA'' [(''y'', JNum 2)] ex_opts ex_one)"

definition ex_update_present :: state where
  "ex_update_present = tick (call_update 1 ''topicA'' [(''y'', JNum 2)] ex_one)"

text \<open>
  A caller calls \<^verbatim>\<open>delete("topicA", "done")\<close> on \<open>ex_one\<close> and, before any job has run,
  another calls \<^verbatim>\<open>set("topicA", {y: 2}, {relay: {}})\<close> (\<open>ex_delete_set\<close>) or
  \<^verbatim>\<open>update("topicA", {y: 2})\<close> (\<open>ex_delete_update\<close>); then the jobs run until the queue is
  empty, with the \<^verbatim>\<open>unsubscribe\<close> of the \<^verbatim>\<open>delete\<close> unanswered.
\<close>

definition ex_deleting :: state where
  "ex_deleting = call_delete 1 ''topicA'' ''done'' ex_one"

definition ex_delete_set :: state where
  "ex_delete_set =
     tick (tick (tick (tick (tick (tick (tick
       (call_set 2 ''topicA'' [(''y'', JNum 2)] ex_opts ex_deleting)))))))"

definition ex_delete_update :: state where
  "ex_delete_update =
     tick (tick (tick (tick (tick (tick (tick
       (call_update 2 ''topicA'' [(''y'', JNum 2)] ex_deleting)))))))"









text \<open>
  \<^verbatim>\<open>get("topicA")\<close> is called while \<open>ex_replaying\<close> replays (\<open>ex_waiting\<close>), and the job
  \<open>Adopt\<close> of its gate runs (\<open>ex_adopted\<close>).
\<close>

definition ex_waiting :: state where
  "ex_waiting = call_get 1 ''topicA'' ex_replaying"

definition ex_adopted :: state where
  "ex_adopted = tick ex_waiting"

text \<open>
  The relayer answers the replayed subscribe of \<open>ex_adopted\<close> with \<^verbatim>\<open>"id2"\<close>, and the jobs
  run up to and including the one in which \<^verbatim>\<open>reset\<close> calls \<^verbatim>\<open>enable\<close>.
\<close>

definition ex_released :: state where
  "ex_released = tick (tick (tick (tick (settle 1 (Inr (VId ''id2'')) ex_adopted))))"

text \<open>
  \<^verbatim>\<open>init\<close> on a new controller whose storage holds one record: \<^verbatim>\<open>restore\<close> replays it
  (\<open>ex_restoring\<close>). \<^verbatim>\<open>get("topicA")\<close> is called during the replay, the relayer answers
  the subscribe with \<^verbatim>\<open>"id2"\<close>, and the jobs run until the queue is empty
  (\<open>ex_restored_get\<close>).
\<close>

definition ex_restoring :: state where
  "ex_restoring =
     tick (settle 0
       (Inr (VItems (Some [\<lparr>p_id = ''id1'', p_topic = ''topicA'', p_data = [(''x'', JNum 1)],
                              p_opts = ex_opts\<rparr>])))
       (call_init 0 ex_initial))"

definition ex_restored_get :: state where
  "ex_restored_get =
     tick (tick (tick (tick (tick (tick (tick (tick (tick (tick (tick
       (settle 0 (Inr (VId ''id2'')) (tick (call_get 1 ''topicA'' ex_restoring)))))))))))))"

section \<open>Lemmas\<close>

lemmas prims = push_def enqueue_def finish_def return_to_def log_def io_request_def isEnabled_def

lemmas sections = getSubscription_0_def getSubscription_1_def get_0_def get_1_def get_2_def
  update_0_def update_1_def update_2_def delete_0_def delete_1_def delete_2_def delete_3_def
  subscribeAndSet_0_def subscribeAndSet_1_def set_0_def set_1_def set_2_def persist_0_def
  persist_1_def emit_def call_get_def call_set_def call_update_def call_delete_def call_init_def

lemmas loop = tick_def resume_def settle_def accepts_def

lemmas runs = run_set_def run_set_present_def run_get_def run_update_def run_delete_def
  run_init_def

subsection \<open>The undisturbed runs, as state updates\<close>

lemma run_get_present:
  assumes "microtasks s = []" "cached s = []" "map_of (subscriptions s) t = Some sub"
  shows "run_get c t s =
     s\<lparr>logs := logs s @ [(LDebug, Text ''Getting subscription''), (LTrace, Method ''get'')],
       returned := returned s @ [(c, Inr (VData (p_data sub)))]\<rparr>"
  using assms by (simp add: runs loop prims sections)

lemma run_get_missing:
  assumes "microtasks s = []" "cached s = []" "map_of (subscriptions s) t = None"
  shows "run_get c t s =
     s\<lparr>logs := logs s @ [(LDebug, Text ''Getting subscription''), (LTrace, Method ''get''),
                        (LError, Thrown (NotFoundError t))],
       returned := returned s @ [(c, Inl (NotFoundError t))]\<rparr>"
  using assms by (simp add: runs loop prims sections)

lemma run_update_present:
  assumes "microtasks s = []" "cached s = []" "map_of (subscriptions s) t = Some sub"
  shows "run_update c t u s =
     s\<lparr>subscriptions :=
         AList.update t (sub\<lparr>p_topic := t, p_data := spread (p_data sub) u\<rparr>) (subscriptions s),
       emitted := emitted s @ [Updated t (spread (p_data sub) u) u],
       logs := logs s @ [(LDebug, Text ''Updating subscription''), (LTrace, Method ''update''),
                          (LInfo, Emitting ''updated''), (LDebug, EventData ''updated'')],
       requests := requests s @
         [SetItem (storage_key s)
            (map snd (AList.update t (sub\<lparr>p_topic := t, p_data := spread (p_data sub) u\<rparr>)
                        (subscriptions s)))],
       pending := pending s @
         [(SetItem (storage_key s)
             (map snd (AList.update t (sub\<lparr>p_topic := t, p_data := spread (p_data sub) u\<rparr>)
                         (subscriptions s))),
           ([Persist_1], Detached))],
       returned := returned s @ [(c, Inr VUnit)]\<rparr>"
  using assms by (simp add: runs loop prims sections Let_def values_of_def)

lemma run_set_present_eq:
  assumes "microtasks s = []" "cached s = []" "map_of (subscriptions s) t = Some sub"
  shows "run_set_present c t d os s = run_update c t d s"
  using assms by (simp add: runs loop prims sections Let_def values_of_def has_def)

lemma run_set_fresh:
  assumes "microtasks s = []" "cached s = []" "map_of (subscriptions s) t = None"
    "encrypted s \<longrightarrow> decryptKeys os \<noteq> None"
    "\<not> has (timeout s) t" "now s < resolve_expiry os s"
  shows "run_set c t d os i s =
     s\<lparr>subscriptions :=
         AList.update t \<lparr>p_id = i, p_topic = t, p_data = d, p_opts = os\<rparr> (subscriptions s),
       timeout := AList.update t (next_timer s) (timeout s),
       emitted := emitted s @ [Created t d],
       logs := logs s @ [(LDebug, Text ''Setting subscription''), (LTrace, Method ''set''),
                          (LInfo, Emitting ''created''), (LDebug, EventData ''created'')],
       requests := requests s @
         [Subscribe t os,
          SetItem (storage_key s)
            (map snd (AList.update t \<lparr>p_id = i, p_topic = t, p_data = d, p_opts = os\<rparr>
                        (subscriptions s)))],
       pending := pending s @
         [(SetItem (storage_key s)
             (map snd (AList.update t \<lparr>p_id = i, p_topic = t, p_data = d, p_opts = os\<rparr>
                         (subscriptions s))),
           ([Persist_1], Detached))],
       timers := timers s @
         [(next_timer s, t, now s + runtime_delay (resolve_expiry os s - now s))],
       next_timer := Suc (next_timer s),
       returned := returned s @ [(c, Inr VUnit)]\<rparr>"
  using assms
  by (auto simp add: runs loop prims sections Let_def values_of_def has_def setTimeout_def resolve_expiry_def split: option.splits)

lemma run_set_fresh_armed:
  assumes "microtasks s = []" "cached s = []" "map_of (subscriptions s) t = None"
    "encrypted s \<longrightarrow> decryptKeys os \<noteq> None"
    "has (timeout s) t"
  shows "run_set c t d os i s =
     s\<lparr>subscriptions :=
         AList.update t \<lparr>p_id = i, p_topic = t, p_data = d, p_opts = os\<rparr> (subscriptions s),
       emitted := emitted s @ [Created t d],
       logs := logs s @ [(LDebug, Text ''Setting subscription''), (LTrace, Method ''set''),
                          (LInfo, Emitting ''created''), (LDebug, EventData ''created'')],
       requests := requests s @
         [Subscribe t os,
          SetItem (storage_key s)
            (map snd (AList.update t \<lparr>p_id = i, p_topic = t, p_data = d, p_opts = os\<rparr>
                        (subscriptions s)))],
       pending := pending s @
         [(SetItem (storage_key s)
             (map snd (AList.update t \<lparr>p_id = i, p_topic = t, p_data = d, p_opts = os\<rparr>
                         (subscriptions s))),
           ([Persist_1], Detached))],
       returned := returned s @ [(c, Inr VUnit)]\<rparr>"
  using assms
  by (auto simp add: runs loop prims sections Let_def values_of_def has_def setTimeout_def)

lemma run_delete_present:
  assumes "microtasks s = []" "cached s = []" "map_of (subscriptions s) t = Some sub"
  shows "run_delete c t r s =
     s\<lparr>subscriptions := AList.delete t (subscriptions s),
       emitted := emitted s @ [Deleted t (p_data sub) r],
       logs := logs s @ [(LDebug, Text ''Deleting subscription''), (LTrace, Method ''delete''),
                          (LInfo, Emitting ''updated''), (LDebug, EventData ''updated'')],
       requests := requests s @
         [Unsubscribe (p_id sub) (relay (p_opts sub)) (decryptKeys (p_opts sub)),
          SetItem (storage_key s) (map snd (AList.delete t (subscriptions s)))],
       pending := pending s @
         [(SetItem (storage_key s) (map snd (AList.delete t (subscriptions s))),
           ([Persist_1], Detached))],
       returned := returned s @ [(c, Inr VUnit)]\<rparr>"
  using assms
  by (simp add: runs loop prims sections Let_def values_of_def)

subsection \<open>What each section does to the store and the timers\<close>

lemma fold_clearTimeout:
  "fold (\<lambda>th. clearTimeout (snd th)) hs s =
     s\<lparr>timers := filter (\<lambda>tm. fst tm \<notin> snd ` set hs) (timers s)\<rparr>"
proof (induction hs arbitrary: s)
  case Nil
  show ?case by simp
next
  case (Cons h hs)
  have "filter (\<lambda>tm. fst tm \<notin> snd ` set hs) (filter (\<lambda>tm. fst tm \<noteq> snd h) (timers s)) =
        filter (\<lambda>tm. fst tm \<notin> snd ` set (h # hs)) (timers s)"
    by (induction "timers s") auto
  then show ?case using Cons.IH [of "clearTimeout (snd h) s"]
    by (simp add: clearTimeout_def)
qed

lemma resetTimeout_eq:
  "resetTimeout s =
     s\<lparr>timers := filter (\<lambda>tm. fst tm \<notin> snd ` set (timeout s)) (timers s), timeout := []\<rparr>"
  by (simp add: resetTimeout_def fold_clearTimeout)

lemma core_fields:
  "core (s\<lparr>cached := a\<rparr>) = core s"
  "core (s\<lparr>emitted := b\<rparr>) = core s"
  "core (s\<lparr>waiting := c\<rparr>) = core s"
  "core (s\<lparr>logs := d\<rparr>) = core s"
  "core (s\<lparr>requests := e\<rparr>) = core s"
  "core (s\<lparr>pending := f\<rparr>) = core s"
  "core (s\<lparr>microtasks := g\<rparr>) = core s"
  "core (s\<lparr>joins := h\<rparr>) = core s"
  "core (s\<lparr>next_join := i\<rparr>) = core s"
  "core (s\<lparr>now := j\<rparr>) = core s"
  "core (s\<lparr>returned := k\<rparr>) = core s"
  "core (s\<lparr>unhandled := l\<rparr>) = core s"
  "core (s\<lparr>fired := m\<rparr>) = core s"
  "core (s\<lparr>next_waiter := n\<rparr>) = core s"
  by (simp_all add: core_def)

lemma core_enqueue: "core (enqueue thr r s) = core s"
  by (simp add: enqueue_def core_fields)

lemma core_finish: "core (finish ro r s) = core s"
  by (simp add: finish_def core_enqueue core_fields split: root.splits sum.splits)

lemma core_return_to: "core (return_to thr r s) = core s"
  by (simp add: return_to_def core_enqueue core_finish split: list.splits)

lemma core_prims:
  "core (log l m s) = core s"
  "core (io_request q thr s) = core s"
  "core (isEnabled thr s) = core s"
  "core (emit_enabled s) = core s"
  "core (adopt w s) = core s"
  "core (resolveElement j r s) = core s"
  by (simp_all add: log_def io_request_def isEnabled_def emit_enabled_def adopt_def
      resolveElement_def core_enqueue core_fields
      split: option.splits sum.splits prod.splits)

lemmas core_basic = core_enqueue core_finish core_return_to core_prims core_fields

lemma core_emit: "core (emit ev s) = core s"
  by (cases ev) (simp_all add: emit_def persist_0_def Let_def core_basic)

lemma core_enable: "core (enable thr s) = core s"
  by (simp add: enable_def core_enqueue core_emit core_fields)

lemma core_replay_fold:
  "core (fold (\<lambda>sub. subscribeAndSet_0 (p_topic sub) (p_data sub) (p_opts sub) thr) cs s) = core s"
  by (induction cs arbitrary: s) (simp_all add: subscribeAndSet_0_def core_basic)

lemma core_replay: "core (replay thr s) = core s"
  by (simp add: replay_def Let_def core_basic core_replay_fold)

lemma core_restore_catch: "core (restore_catch e thr s) = core s"
  by (simp add: restore_catch_def core_basic)

lemma core_same:
  "core (getSubscription_0 t thr s) = core s"
  "core (getSubscription_1 t thr s) = core s"
  "core (get_0 t thr s) = core s"
  "core (get_1 t thr s) = core s"
  "core (get_2 sub thr s) = core s"
  "core (update_0 t u thr s) = core s"
  "core (update_1 t u thr s) = core s"
  "core (delete_0 t r thr s) = core s"
  "core (delete_1 t r thr s) = core s"
  "core (delete_3 t r sub thr s) = core s"
  "core (subscribeAndSet_0 t d os thr s) = core s"
  "core (set_0 t d os thr s) = core s"
  "core (set_1 t d os thr s) = core s"
  "core (set_2 t d thr s) = core s"
  "core (persist_0 thr s) = core s"
  "core (persist_1 thr s) = core s"
  "core (onPayload t p s) = core s"
  "core (restore_0 thr s) = core s"
  "core (restore_2 thr s) = core s"
  "core (restore_3 thr s) = core s"
  "core (reset_1 thr s) = core s"
  "core (reset_2 thr s) = core s"
  "core (reset_3 thr s) = core s"
  "core (init_0 thr s) = core s"
  "core (init_1 thr s) = core s"
  by (simp_all add: getSubscription_0_def getSubscription_1_def get_0_def get_1_def get_2_def
      update_0_def update_1_def delete_0_def delete_1_def delete_3_def subscribeAndSet_0_def
      set_0_def set_1_def set_2_def persist_0_def persist_1_def onPayload_def restore_0_def
      restore_2_def restore_3_def reset_1_def reset_2_def reset_3_def init_0_def init_1_def
      core_basic core_emit core_enable core_replay Let_def split: option.splits)

lemma core_restore_1: "core (restore_1 ps thr s) = core s"
  by (simp add: restore_1_def core_basic core_restore_catch core_replay
      split: option.splits)


text \<open>The sections that change the store or the timers.\<close>

lemma core_update_2:
  "core (update_2 t u sub thr s) =
     (AList.update t (sub\<lparr>p_topic := t, p_data := spread (p_data sub) u\<rparr>) (subscriptions s),
      timeout s, timers s, next_timer s)"
  by (simp add: update_2_def Let_def core_basic core_emit) (simp add: core_def)

lemma core_delete_2:
  "core (delete_2 t r sub thr s) =
     (AList.delete t (subscriptions s), timeout s, timers s, next_timer s)"
  by (simp add: delete_2_def core_basic) (simp add: core_def)

lemma core_clearTimeout:
  "core (clearTimeout h s) =
     (subscriptions s, timeout s, filter (\<lambda>tm. fst tm \<noteq> h) (timers s), next_timer s)"
  by (simp add: clearTimeout_def core_def)

lemma core_resetTimeout:
  "core (resetTimeout s) =
     (subscriptions s, [], filter (\<lambda>tm. fst tm \<notin> snd ` set (timeout s)) (timers s), next_timer s)"
  by (simp add: resetTimeout_eq core_def)


lemma inv_core:
  assumes "core s' = core s"
  shows "controller_inv s' = controller_inv s"
proof -
  have eqs: "subscriptions s' = subscriptions s \<and> timeout s' = timeout s \<and>
             timers s' = timers s \<and> next_timer s' = next_timer s"
    using assms unfolding core_def by (simp only: prod.inject)
  show ?thesis
    unfolding controller_inv_def timers_ok_def by (simp only: eqs)
qed

lemma inv_same:
  assumes "core s' = core s" "controller_inv s"
  shows "controller_inv s'"
  using assms(2) unfolding inv_core [OF assms(1)] .

lemma inv_initial: "controller_inv (initial enc ctx key ttl)"
  by (simp add: controller_inv_def timers_ok_def initial_def)

lemma inv_update_2: "controller_inv s \<Longrightarrow> controller_inv (update_2 t u sub thr s)"
  using core_update_2 [of t u sub thr s]
  by (simp add: core_def controller_inv_def timers_ok_def distinct_update)

lemma inv_delete_2: "controller_inv s \<Longrightarrow> controller_inv (delete_2 t r sub thr s)"
  using core_delete_2 [of t r sub thr s]
  by (simp add: core_def controller_inv_def timers_ok_def distinct_delete)

lemma inv_filter:
  assumes "controller_inv s" "core s' = (subscriptions s, timeout s, filter P (timers s), next_timer s)"
  shows "controller_inv s'"
  using assms
  by (auto simp add: core_def controller_inv_def timers_ok_def list_all_iff distinct_map_filter)

lemma inv_clearTimeout: "controller_inv s \<Longrightarrow> controller_inv (clearTimeout h s)"
  by (rule inv_filter [OF _ core_clearTimeout])

lemma inv_deleteTimeout: "controller_inv s \<Longrightarrow> controller_inv (deleteTimeout t s)"
  by (simp add: deleteTimeout_def inv_clearTimeout split: option.splits)

lemma inv_onTimeout: "controller_inv s \<Longrightarrow> controller_inv (onTimeout t s)"
  unfolding onTimeout_def
  by (rule inv_same [OF core_same(8)]) (rule inv_deleteTimeout)

lemma inv_resetTimeout: "controller_inv s \<Longrightarrow> controller_inv (resetTimeout s)"
proof -
  assume a: "controller_inv s"
  have "fst tm \<in> snd ` set (timeout s)" if "tm \<in> set (timers s)" for tm
  proof -
    from a that have "map_of (timeout s) (fst (snd tm)) = Some (fst tm)"
      by (simp add: controller_inv_def timers_ok_def list_all_iff)
    then have "(fst (snd tm), fst tm) \<in> set (timeout s)" by (rule map_of_SomeD)
    then show ?thesis by (rule rev_image_eqI) simp
  qed
  then have "filter (\<lambda>tm. fst tm \<notin> snd ` set (timeout s)) (timers s) = []"
    by (simp add: filter_empty_conv)
  with a show ?thesis
    by (simp add: resetTimeout_eq controller_inv_def timers_ok_def)
qed

lemma inv_setTimeout: "controller_inv s \<Longrightarrow> controller_inv (setTimeout t e s)"
proof -
  assume a: "controller_inv s"
  show ?thesis
  proof (cases "has (timeout s) t")
    case True
    with a show ?thesis by (simp add: setTimeout_def)
  next
    case False
    note absent = this
    show ?thesis
    proof (cases "e - now s \<le> 0")
      case True
      with absent a show ?thesis by (simp add: setTimeout_def inv_onTimeout)
    next
      case False
      let ?h = "next_timer s"
      let ?due = "now s + runtime_delay (e - now s)"
      have eq: "setTimeout t e s =
          s\<lparr>timers := timers s @ [(?h, t, ?due)],
            timeout := AList.update t ?h (timeout s), next_timer := Suc ?h\<rparr>"
        using absent False by (simp add: setTimeout_def Let_def)
      have reg: "map_of (timeout s) (fst (snd tm)) = Some (fst tm)" if "tm \<in> set (timers s)" for tm
        using a that by (simp add: controller_inv_def timers_ok_def list_all_iff)
      have fresh: "fst tm < ?h" if "tm \<in> set (timers s)" for tm
        using a that by (simp add: controller_inv_def timers_ok_def list_all_iff)
      have other: "fst (snd tm) \<noteq> t" if "tm \<in> set (timers s)" for tm
      proof
        assume "fst (snd tm) = t"
        with reg [OF that] have "map_of (timeout s) t = Some (fst tm)" by simp
        with absent show False by (simp add: has_def)
      qed
      have new: "?h \<notin> fst ` set (timers s)"
      proof
        assume "?h \<in> fst ` set (timers s)"
        then obtain tm where "tm \<in> set (timers s)" "fst tm = ?h" by auto
        with fresh [of tm] show False by simp
      qed
      have 1: "list_all (\<lambda>tm. map_of (AList.update t ?h (timeout s)) (fst (snd tm)) = Some (fst tm))
                 (timers s @ [(?h, t, ?due)])"
        using reg other by (simp add: list_all_iff update_conv')
      have 2: "list_all (\<lambda>tm. fst tm < Suc ?h) (timers s @ [(?h, t, ?due)])"
        using fresh by (simp add: list_all_iff less_Suc_eq)
      have 3: "distinct (map fst (timers s @ [(?h, t, ?due)]))"
        using a new by (simp add: controller_inv_def timers_ok_def)
      from a 1 2 3 show ?thesis
        unfolding eq by (simp add: controller_inv_def timers_ok_def)
    qed
  qed
qed

lemma inv_subscribeAndSet_1:
  "controller_inv s \<Longrightarrow> controller_inv (subscribeAndSet_1 t d os i thr s)"
proof -
  assume a: "controller_inv s"
  let ?s1 = "s\<lparr>subscriptions :=
                AList.update t \<lparr>p_id = i, p_topic = t, p_data = d, p_opts = os\<rparr> (subscriptions s)\<rparr>"
  from a have "controller_inv ?s1"
    by (simp add: controller_inv_def timers_ok_def distinct_update)
  then have "controller_inv (setTimeout t (resolve_expiry os s) ?s1)" by (rule inv_setTimeout)
  then show ?thesis
    by (simp add: subscribeAndSet_1_def Let_def inv_core [OF core_return_to])
qed

lemma inv_disable: "controller_inv s \<Longrightarrow> controller_inv (disable thr s)"
proof -
  assume a: "controller_inv s"
  let ?s1 = "if cached s = [] then s\<lparr>cached := values_of s\<rparr> else s"
  from a have "controller_inv ?s1" by (simp add: inv_core [OF core_fields(1)])
  then have "controller_inv (resetTimeout ?s1)" by (rule inv_resetTimeout)
  then show ?thesis
    by (simp only: disable_def Let_def inv_core [OF core_enqueue] inv_core [OF core_emit])
qed

lemma inv_resume: "controller_inv s \<Longrightarrow> controller_inv (resume f thr r s)"
proof (cases r)
  case (Inl e)
  then show "controller_inv s \<Longrightarrow> ?thesis"
    by (cases f) (simp_all add: resume_def inv_core [OF core_return_to]
        inv_core [OF core_restore_catch] inv_core [OF core_enqueue]
        core_prims [THEN inv_core] split: root.splits)
next
  case (Inr v)
  then show "controller_inv s \<Longrightarrow> ?thesis"
    by (cases f; cases v)
       (simp_all add: resume_def inv_core [OF core_return_to] inv_core [OF core_restore_1]
        core_same [THEN inv_core] inv_update_2 inv_delete_2 inv_subscribeAndSet_1
        inv_core [OF core_enqueue] core_prims [THEN inv_core] split: root.splits)
qed

lemma inv_tick: "controller_inv s \<Longrightarrow> controller_inv (tick s)"
  by (simp add: tick_def inv_resume inv_core [OF core_finish] inv_core [OF core_fields(7)]
      split: list.splits prod.splits)

lemma inv_settle: "controller_inv s \<Longrightarrow> controller_inv (settle k r s)"
  by (simp add: settle_def inv_core [OF core_enqueue] inv_core [OF core_fields(6)])

lemma inv_fire: "controller_inv s \<Longrightarrow> controller_inv (fire h s)"
  by (simp add: fire_def inv_onTimeout inv_clearTimeout split: option.splits)

lemma reachable_inv: "reachable s \<Longrightarrow> controller_inv s"
proof (induction rule: reachable.induct)
  case (r_initial enc ctx key ttl)
  show ?case by (rule inv_initial)
next
  case (r_init s c)
  then show ?case by (simp add: call_init_def core_same [THEN inv_core])
next
  case (r_set s c t d os)
  then show ?case by (simp add: call_set_def core_same [THEN inv_core])
next
  case (r_get s c t)
  then show ?case by (simp add: call_get_def core_same [THEN inv_core])
next
  case (r_update s c t u)
  then show ?case by (simp add: call_update_def core_same [THEN inv_core])
next
  case (r_delete s c t r)
  then show ?case by (simp add: call_delete_def core_same [THEN inv_core])
next
  case (r_deleteTimeout s t)
  then show ?case by (simp add: inv_deleteTimeout)
next
  case (r_resetTimeout s)
  then show ?case by (simp add: inv_resetTimeout)
next
  case (r_tick s)
  then show ?case by (simp add: inv_tick)
next
  case (r_settle s k res)
  then show ?case by (simp add: inv_settle)
next
  case (r_fire s h)
  then show ?case by (simp add: inv_fire)
next
  case (r_advance s dt)
  then show ?case by (simp add: advance_def inv_core [OF core_fields(10)])
next
  case (r_connect s)
  then show ?case by (simp add: connect_def reset_0_def inv_disable)
next
  case (r_deliver s t p)
  then show ?case by (simp add: deliver_def core_same [THEN inv_core])
qed

subsection \<open>Objects and timers\<close>

lemma spread_field:
  "distinct (map fst p) \<Longrightarrow>
   field (spread d p) k = (case field p k of Some v \<Rightarrow> Some v | None \<Rightarrow> field d k)"
proof (induction p arbitrary: d)
  case Nil
  show ?case by (simp add: spread_def field_def)
next
  case (Cons x p)
  from Cons.prems have absent: "map_of p (fst x) = None" and dist: "distinct (map fst p)"
    by (simp_all add: map_of_eq_None_iff)
  have step: "spread d (x # p) = spread (AList.update (fst x) (snd x) d) p"
    by (simp add: spread_def)
  show ?case
  proof (cases "k = fst x")
    case True
    with absent show ?thesis
      unfolding step Cons.IH [OF dist]
      by (simp add: field_def update_conv' split: option.split)
  next
    case False
    then show ?thesis
      unfolding step Cons.IH [OF dist]
      by (simp add: field_def update_conv' split: option.split)
  qed
qed

lemma distinct_all_same:
  "distinct xs \<Longrightarrow> list_all (\<lambda>x. x = h) xs \<Longrightarrow> length xs \<le> Suc 0"
  by (cases xs; cases "tl xs") auto

lemma inv_has_slot:
  assumes "controller_inv s" "tm \<in> set (live t s)"
  shows "map_of (timeout s) t = Some (fst tm)"
  using assms by (auto simp add: controller_inv_def timers_ok_def live_def list_all_iff)

lemma inv_live_le_one:
  assumes "controller_inv s"
  shows "length (live t s) \<le> Suc 0"
proof (cases "map_of (timeout s) t")
  case None
  have "live t s = []"
  proof (cases "live t s")
    case Nil
    then show ?thesis .
  next
    case (Cons tm tms)
    then have "tm \<in> set (live t s)" by simp
    from inv_has_slot [OF assms this] None show ?thesis by simp
  qed
  then show ?thesis by simp
next
  case (Some h)
  have "distinct (map fst (live t s))"
    using assms by (simp add: controller_inv_def timers_ok_def live_def distinct_map_filter)
  moreover have "fst tm = h" if "tm \<in> set (live t s)" for tm
    using inv_has_slot [OF assms that] Some by simp
  then have "list_all (\<lambda>x. x = h) (map fst (live t s))"
    by (simp add: list_all_iff)
  ultimately have "length (map fst (live t s)) \<le> Suc 0" by (rule distinct_all_same)
  then show ?thesis by simp
qed

subsection \<open>The replay\<close>






lemma runtime_delay_cases:
  "0 < ttl \<Longrightarrow> ttl \<le> 2147483647 \<Longrightarrow> runtime_delay ttl = ttl"
  "2147483647 < ttl \<Longrightarrow> runtime_delay ttl = 1"
  by (simp_all add: runtime_delay_def)

lemma replayed_step:
  assumes "microtasks s = []" "k < length (pending s)"
    "pending s ! k = (Subscribe t os, ([SubscribeAndSet_1 t d os, Replay_1], Child j))"
  shows "tick (settle k (Inr (VId i)) s) =
      subscribeAndSet_1 t d os i ([Replay_1], Child j)
        (s\<lparr>pending := take k (pending s) @ drop (Suc k) (pending s), microtasks := []\<rparr>)"
  using assms by (simp add: loop enqueue_def)

lemma replayed_occupied:
  assumes "microtasks s = []" "k < length (pending s)"
    "pending s ! k = (Subscribe t os, ([SubscribeAndSet_1 t d os, Replay_1], Child j))"
    "has (timeout s) t"
  shows "timers (tick (settle k (Inr (VId i)) s)) = timers s"
    and "timeout (tick (settle k (Inr (VId i)) s)) = timeout s"
  using assms(4) unfolding replayed_step [OF assms(1,2,3)]
  by (simp_all add: subscribeAndSet_1_def Let_def setTimeout_def has_def return_to_def
      enqueue_def)


lemma two_arms:
  assumes "reachable s" "\<not> has (timeout s) t" "now s < e1"
  shows "live t (setTimeout t e2 (setTimeout t e1 s)) =
     [(next_timer s, t, now s + runtime_delay (e1 - now s))]"
proof -
  from assms(1) have i: "controller_inv s" by (rule reachable_inv)
  have none: "live t s = []"
  proof (rule ccontr)
    assume "live t s \<noteq> []"
    then obtain tm where "tm \<in> set (live t s)" by (cases "live t s") auto
    from inv_has_slot [OF i this] assms(2) show False by (simp add: has_def)
  qed
  from assms(2,3) have first: "setTimeout t e1 s =
      s\<lparr>timers := timers s @ [(next_timer s, t, now s + runtime_delay (e1 - now s))],
        timeout := AList.update t (next_timer s) (timeout s),
        next_timer := Suc (next_timer s)\<rparr>"
    by (simp add: setTimeout_def Let_def)
  have "has (timeout (setTimeout t e1 s)) t"
    unfolding first by (simp add: has_def update_conv')
  then have "setTimeout t e2 (setTimeout t e1 s) = setTimeout t e1 s"
    by (simp add: setTimeout_def)
  then show ?thesis
    using none unfolding first by (simp add: live_def)
qed

subsection \<open>The gate\<close>

lemma tick_hop:
  "tick (s\<lparr>microtasks := (push Hop x, r) # q\<rparr>) = s\<lparr>microtasks := q @ [(x, r)]\<rparr>"
  by (simp add: tick_def resume_def enqueue_def push_def)

lemma hop_run:
  "(tick ^^ length xs) (s\<lparr>microtasks := map (\<lambda>x. (push Hop x, r)) xs @ q\<rparr>) =
     s\<lparr>microtasks := q @ map (\<lambda>x. (x, r)) xs\<rparr>"
proof (induction xs arbitrary: q)
  case Nil
  show ?case by simp
next
  case (Cons x xs)
  have "(tick ^^ length (x # xs)) (s\<lparr>microtasks := map (\<lambda>x. (push Hop x, r)) (x # xs) @ q\<rparr>) =
        (tick ^^ length xs) (tick (s\<lparr>microtasks := (push Hop x, r) # (map (\<lambda>x. (push Hop x, r)) xs @ q)\<rparr>))"
    by (simp add: funpow_swap1)
  also have "\<dots> = (tick ^^ length xs) (s\<lparr>microtasks := map (\<lambda>x. (push Hop x, r)) xs @ (q @ [(x, r)])\<rparr>)"
    by (simp add: tick_hop)
  also have "\<dots> = s\<lparr>microtasks := (q @ [(x, r)]) @ map (\<lambda>x. (x, r)) xs\<rparr>"
    by (rule Cons.IH)
  finally show ?case by simp
qed

lemma enable_eq:
  "enable thr s =
     s\<lparr>cached := [], emitted := emitted s @ [Enabled], waiting := [],
       fired := fired s @
         map (\<lambda>w. (fst w, snd (snd w))) (filter (\<lambda>w. \<not> fst (snd w)) (waiting s)),
       microtasks := microtasks s @
         map (\<lambda>w. (push Hop (snd (snd w)), Inr VUnit)) (filter (\<lambda>w. fst (snd w)) (waiting s)) @
         [(thr, Inr VUnit)]\<rparr>"
  by (simp add: enable_def emit_def emit_enabled_def enqueue_def)

lemma enable_adopted:
  assumes "microtasks s = []" "list_all (\<lambda>w. fst (snd w)) (waiting s)"
  shows "(tick ^^ length (waiting s)) (enable thr s) =
     s\<lparr>cached := [], emitted := emitted s @ [Enabled], waiting := [],
       microtasks := (thr, Inr VUnit) # map (\<lambda>w. (snd (snd w), Inr VUnit)) (waiting s)\<rparr>"
proof -
  from assms(2) have all: "filter (\<lambda>w. fst (snd w)) (waiting s) = waiting s"
    and none: "filter (\<lambda>w. \<not> fst (snd w)) (waiting s) = []"
    by (simp_all add: list_all_iff filter_empty_conv)
  let ?s1 = "s\<lparr>cached := [], emitted := emitted s @ [Enabled], waiting := []\<rparr>"
  have "enable thr s =
      ?s1\<lparr>microtasks :=
        map (\<lambda>x. (push Hop x, Inr VUnit)) (map (\<lambda>w. snd (snd w)) (waiting s)) @ [(thr, Inr VUnit)]\<rparr>"
    unfolding enable_eq all none using assms(1) by (simp add: comp_def)
  then have "(tick ^^ length (waiting s)) (enable thr s) =
      ?s1\<lparr>microtasks := [(thr, Inr VUnit)] @
        map (\<lambda>x. (x, Inr VUnit)) (map (\<lambda>w. snd (snd w)) (waiting s))\<rparr>"
    using hop_run [where xs = "map (\<lambda>w. snd (snd w)) (waiting s)" and s = ?s1
        and r = "Inr VUnit" and q = "[(thr, Inr VUnit)]"]
    by simp
  then show ?thesis by (simp add: comp_def)
qed

section \<open>The claims\<close>

text \<open>
  C1. A caller sets a topic that the store does not hold, reads it, updates it, reads
  it, deletes it and reads it again, each call made when the one before has returned,
  on a controller whose gate is open and whose job queue is empty. The options carry
  the keys an encrypted context asks for, and the expiry of the new record has not
  passed when it is armed (or the \<open>timeout\<close> map still holds an entry for the topic, so
  that nothing is armed). Then the six calls return, in this order: \<^verbatim>\<open>set\<close> succeeds,
  \<^verbatim>\<open>get\<close> returns the data that was set, \<^verbatim>\<open>update\<close> succeeds, \<^verbatim>\<open>get\<close> returns
  \<^verbatim>\<open>{ ...d, ...p }\<close>, \<^verbatim>\<open>delete\<close> succeeds, \<^verbatim>\<open>get\<close> rejects with \<open>NotFoundError\<close>. In the
  merged object a field of \<open>p\<close> has the value \<open>p\<close> gives it and every other field the
  value it had in \<open>d\<close> (\<open>p\<close> names no field twice).
\<close>

theorem set_get_update_delete:
  assumes idle: "microtasks s = []" and enabled: "cached s = []"
    and fresh: "map_of (subscriptions s) t = None"
    and keys: "encrypted s \<longrightarrow> decryptKeys os \<noteq> None"
    and future: "has (timeout s) t \<or> now s < resolve_expiry os s"
  shows
    "(let s1 = run_set c1 t d os i s;
          s2 = run_get c2 t s1;
          s3 = run_update c3 t p s2;
          s4 = run_get c4 t s3;
          s5 = run_delete c5 t r s4;
          s6 = run_get c6 t s5
      in returned s6 = returned s @
           [(c1, Inr VUnit), (c2, Inr (VData d)), (c3, Inr VUnit),
            (c4, Inr (VData (spread d p))), (c5, Inr VUnit), (c6, Inl (NotFoundError t))]) \<and>
     (distinct (map fst p) \<longrightarrow>
        (\<forall>k. field (spread d p) k =
           (case field p k of Some v \<Rightarrow> Some v | None \<Rightarrow> field d k)))"
proof -
  let ?rec = "\<lparr>p_id = i, p_topic = t, p_data = d, p_opts = os\<rparr>"
  define s1 where "s1 = run_set c1 t d os i s"
  define s2 where "s2 = run_get c2 t s1"
  define s3 where "s3 = run_update c3 t p s2"
  define s4 where "s4 = run_get c4 t s3"
  define s5 where "s5 = run_delete c5 t r s4"
  define s6 where "s6 = run_get c6 t s5"
  have s1: "microtasks s1 = []" "cached s1 = []" "map_of (subscriptions s1) t = Some ?rec"
    "returned s1 = returned s @ [(c1, Inr VUnit)]"
  proof -
    consider "has (timeout s) t" | "\<not> has (timeout s) t" "now s < resolve_expiry os s"
      using future by blast
    then have "microtasks s1 = [] \<and> cached s1 = [] \<and>
        map_of (subscriptions s1) t = Some ?rec \<and>
        returned s1 = returned s @ [(c1, Inr VUnit)]"
    proof cases
      case 1
      show ?thesis
        unfolding s1_def run_set_fresh_armed [OF idle enabled fresh keys 1]
        using idle enabled by (simp add: update_conv')
    next
      case 2
      show ?thesis
        unfolding s1_def run_set_fresh [OF idle enabled fresh keys 2]
        using idle enabled by (simp add: update_conv')
    qed
    then show "microtasks s1 = []" "cached s1 = []" "map_of (subscriptions s1) t = Some ?rec"
      "returned s1 = returned s @ [(c1, Inr VUnit)]"
      by simp_all
  qed
  have s2: "microtasks s2 = []" "cached s2 = []" "map_of (subscriptions s2) t = Some ?rec"
    "returned s2 = returned s1 @ [(c2, Inr (VData d))]"
    unfolding s2_def run_get_present [OF s1(1,2,3)] using s1 by simp_all
  let ?rec' = "?rec\<lparr>p_topic := t, p_data := spread (p_data ?rec) p\<rparr>"
  have s3: "microtasks s3 = []" "cached s3 = []" "map_of (subscriptions s3) t = Some ?rec'"
    "returned s3 = returned s2 @ [(c3, Inr VUnit)]"
    unfolding s3_def run_update_present [OF s2(1,2,3)] using s2 by (simp_all add: update_conv')
  have s4: "microtasks s4 = []" "cached s4 = []" "map_of (subscriptions s4) t = Some ?rec'"
    "returned s4 = returned s3 @ [(c4, Inr (VData (spread d p)))]"
    unfolding s4_def run_get_present [OF s3(1,2,3)] using s3 by simp_all
  have s5: "microtasks s5 = []" "cached s5 = []" "map_of (subscriptions s5) t = None"
    "returned s5 = returned s4 @ [(c5, Inr VUnit)]"
    unfolding s5_def run_delete_present [OF s4(1,2,3)] using s4 by (simp_all add: delete_conv')
  have s6: "returned s6 = returned s5 @ [(c6, Inl (NotFoundError t))]"
    unfolding s6_def run_get_missing [OF s5(1,2,3)] by simp
  have "returned s6 = returned s @
           [(c1, Inr VUnit), (c2, Inr (VData d)), (c3, Inr VUnit),
            (c4, Inr (VData (spread d p))), (c5, Inr VUnit), (c6, Inl (NotFoundError t))]"
    by (simp add: s6 s5(4) s4(4) s3(4) s2(4) s1(4))
  then show ?thesis
    unfolding s6_def s5_def s4_def s3_def s2_def s1_def Let_def
    by (simp add: spread_field)
qed

text \<open>The scenario of the specification, on a new controller.\<close>

theorem set_get_update_delete_witness:
  "microtasks ex_initial = [] \<and> cached ex_initial = [] \<and>
   map_of (subscriptions ex_initial) ''topicA'' = None \<and> \<not> encrypted ex_initial \<and>
   now ex_initial < resolve_expiry ex_opts ex_initial \<and>
   returned
     (run_get 5 ''topicA''
       (run_delete 4 ''topicA'' ''done''
         (run_get 3 ''topicA''
           (run_update 2 ''topicA'' [(''y'', JNum 2)]
             (run_get 1 ''topicA'' ex_one))))) =
     [(0, Inr VUnit), (1, Inr (VData [(''x'', JNum 1)])), (2, Inr VUnit),
      (3, Inr (VData [(''x'', JNum 1), (''y'', JNum 2)])), (4, Inr VUnit),
      (5, Inl (NotFoundError ''topicA''))] \<and>
   field (spread [(''x'', JNum 1)] [(''x'', JNum 7), (''y'', JNum 2)]) ''x'' = Some (JNum 7) \<and>
   field (spread [(''x'', JNum 1)] [(''y'', JNum 2)]) ''x'' = Some (JNum 1)"
proof -
  have h: "microtasks ex_initial = []" "cached ex_initial = []"
    "map_of (subscriptions ex_initial) ''topicA'' = None"
    "encrypted ex_initial \<longrightarrow> decryptKeys ex_opts \<noteq> None"
    "has (timeout ex_initial) ''topicA'' \<or> now ex_initial < resolve_expiry ex_opts ex_initial"
    by code_simp+
  have e: "\<not> encrypted ex_initial" "now ex_initial < resolve_expiry ex_opts ex_initial"
    "returned ex_initial = []"
    by code_simp+
  note a = set_get_update_delete [OF h, of 0 "[(''x'', JNum 1)]" "''id1''" 1 2 "[(''y'', JNum 2)]"
      3 4 "''done''" 5, folded ex_one_def]
  note b = set_get_update_delete [OF h, of 0 "[(''x'', JNum 1)]" "''id1''" 1 2
      "[(''x'', JNum 7), (''y'', JNum 2)]" 3 4 "''done''" 5]
  from a have 1: "returned
     (run_get 5 ''topicA''
       (run_delete 4 ''topicA'' ''done''
         (run_get 3 ''topicA''
           (run_update 2 ''topicA'' [(''y'', JNum 2)]
             (run_get 1 ''topicA'' ex_one))))) =
     [(0, Inr VUnit), (1, Inr (VData [(''x'', JNum 1)])), (2, Inr VUnit),
      (3, Inr (VData [(''x'', JNum 1), (''y'', JNum 2)])), (4, Inr VUnit),
      (5, Inl (NotFoundError ''topicA''))]"
    by (simp add: Let_def e(3) spread_def)
  from b have 2: "field (spread [(''x'', JNum 1)] [(''x'', JNum 7), (''y'', JNum 2)]) ''x'' =
      Some (JNum 7)"
    by (simp add: field_def)
  from a have 3: "field (spread [(''x'', JNum 1)] [(''y'', JNum 2)]) ''x'' = Some (JNum 1)"
    by (simp add: field_def)
  show ?thesis
    by (intro conjI h(1) h(2) h(3) e(1) e(2) 1 2 3)
qed

text \<open>
  With an expiry that has passed, \<^verbatim>\<open>set\<close> succeeds and the \<^verbatim>\<open>get\<close> that its caller makes
  next rejects with \<open>NotFoundError\<close>: arming the timer has started
  \<^verbatim>\<open>delete(topic, "Expired")\<close>, which removes the record before \<^verbatim>\<open>get\<close> looks it up.
\<close>

theorem set_expired_get_counterexample:
  "returned ex_expired = [(0, Inr VUnit)] \<and>
   returned ex_expired_get = [(0, Inr VUnit), (1, Inl (NotFoundError ''topicA''))]"
  by code_simp

text \<open>
  C2. \<^verbatim>\<open>set\<close> on a topic that the store holds calls \<^verbatim>\<open>this.update(topic, data)\<close> and drops
  the promise, so it does not behave as \<^verbatim>\<open>update\<close> does. On \<open>ex_one\<close>, whose store holds
  \<^verbatim>\<open>topicA\<close> with \<^verbatim>\<open>{x: 1}\<close>, the promise of \<^verbatim>\<open>set("topicA", {y: 2}, ...)\<close> is fulfilled by
  the first job of the call, when the store and the events are those of \<open>ex_one\<close> and the
  update is a job still to run; the promise of \<^verbatim>\<open>update("topicA", {y: 2})\<close> is not
  settled then, and is fulfilled two jobs later with \<^verbatim>\<open>{x: 1, y: 2}\<close> stored. With a
  \<^verbatim>\<open>delete("topicA", "done")\<close> in flight, \<^verbatim>\<open>set\<close> is fulfilled although the update it
  started fails: the topic is gone, no \<^verbatim>\<open>updated\<close> event is emitted and the
  \<^verbatim>\<open>NotFoundError\<close> is an unhandled rejection; \<^verbatim>\<open>update\<close> in its place stores the merged
  record again and emits \<^verbatim>\<open>updated\<close>. In both runs \<^verbatim>\<open>set\<close> adds no request to the relayer.
\<close>

theorem set_drops_update_promise:
  "subscriptions ex_one =
     [(''topicA'',
       \<lparr>p_id = ''id1'', p_topic = ''topicA'', p_data = [(''x'', JNum 1)], p_opts = ex_opts\<rparr>)] \<and>
   returned ex_one = [(0, Inr VUnit)] \<and>
   returned ex_set_present = [(0, Inr VUnit), (1, Inr VUnit)] \<and>
   subscriptions ex_set_present = subscriptions ex_one \<and>
   emitted ex_set_present = emitted ex_one \<and>
   requests ex_set_present = requests ex_one \<and>
   microtasks ex_set_present =
     [(([Update_1 ''topicA'' [(''y'', JNum 2)]], Detached), Inr VUnit)] \<and>
   returned ex_update_present = [(0, Inr VUnit)] \<and>
   returned (tick (tick ex_update_present)) = [(0, Inr VUnit), (1, Inr VUnit)] \<and>
   subscriptions (tick (tick ex_update_present)) =
     [(''topicA'',
       \<lparr>p_id = ''id1'', p_topic = ''topicA'', p_data = [(''x'', JNum 1), (''y'', JNum 2)],
          p_opts = ex_opts\<rparr>)] \<and>
   returned ex_delete_set = [(0, Inr VUnit), (2, Inr VUnit)] \<and>
   subscriptions ex_delete_set = [] \<and>
   emitted ex_delete_set = emitted ex_one \<and>
   unhandled ex_delete_set = [NotFoundError ''topicA''] \<and>
   requests ex_delete_set = requests ex_one @ [Unsubscribe ''id1'' ''{}'' None] \<and>
   microtasks ex_delete_set = [] \<and>
   returned ex_delete_update = [(0, Inr VUnit), (2, Inr VUnit)] \<and>
   subscriptions ex_delete_update =
     [(''topicA'',
       \<lparr>p_id = ''id1'', p_topic = ''topicA'', p_data = [(''x'', JNum 1), (''y'', JNum 2)],
          p_opts = ex_opts\<rparr>)] \<and>
   emitted ex_delete_update =
     emitted ex_one @ [Updated ''topicA'' [(''x'', JNum 1), (''y'', JNum 2)] [(''y'', JNum 2)]] \<and>
   unhandled ex_delete_update = [] \<and>
   microtasks ex_delete_update = []"
  by code_simp




text \<open>
  C4. On an encrypted context, \<^verbatim>\<open>set\<close> of a topic that the store does not hold, with
  options that carry no \<^verbatim>\<open>decryptKeys\<close>, rejects with \<open>MissingDecryptParamsError\<close>. The
  call is made with the gate open and the job queue empty; after the one job of the
  call the state differs from the state before by three log lines and the rejected
  promise only: the store, the timers, the emitted events and the requests to the
  relayer and the storage are unchanged, so no subscription is created and
  \<^verbatim>\<open>relayer.subscribe\<close> is not called.
\<close>

theorem set_without_decrypt_keys:
  assumes "encrypted s" and "decryptKeys os = None" and "map_of (subscriptions s) t = None"
    and "cached s = []" and "microtasks s = []"
  shows "tick (call_set c t d os s) =
     s\<lparr>logs := logs s @ [(LDebug, Text ''Setting subscription''), (LTrace, Method ''set''),
                        (LError, Thrown MissingDecryptParamsError)],
       returned := returned s @ [(c, Inl MissingDecryptParamsError)]\<rparr>"
  using assms by (simp add: loop prims sections has_def)

text \<open>An encrypted context and options without \<^verbatim>\<open>decryptKeys\<close>.\<close>

theorem set_without_decrypt_keys_witness:
  "encrypted ex_encrypted \<and> decryptKeys ex_opts = None \<and>
   map_of (subscriptions ex_encrypted) ''topicA'' = None \<and>
   cached ex_encrypted = [] \<and> microtasks ex_encrypted = [] \<and>
   returned (tick (call_set 0 ''topicA'' [(''x'', JNum 1)] ex_opts ex_encrypted)) =
     [(0, Inl MissingDecryptParamsError)] \<and>
   subscriptions (tick (call_set 0 ''topicA'' [(''x'', JNum 1)] ex_opts ex_encrypted)) = [] \<and>
   requests (tick (call_set 0 ''topicA'' [(''x'', JNum 1)] ex_opts ex_encrypted)) = []"
proof -
  have h: "encrypted ex_encrypted" "decryptKeys ex_opts = None"
    "map_of (subscriptions ex_encrypted) ''topicA'' = None"
    "cached ex_encrypted = []" "microtasks ex_encrypted = []"
    by (simp_all add: ex_encrypted_def ex_opts_def initial_def)
  show ?thesis
    using h set_without_decrypt_keys [OF h, of 0 "[(''x'', JNum 1)]"]
    by (simp add: ex_encrypted_def initial_def)
qed

text \<open>
  C5. \<^verbatim>\<open>init\<close> on a controller whose job queue is empty. When the store holds a
  record and the storage answers \<^verbatim>\<open>getItem\<close> with a snapshot that is not empty,
  \<^verbatim>\<open>restore\<close> logs the \<open>RestoreConflictError\<close>, throws it, catches it and logs it again,
  and \<^verbatim>\<open>init\<close> returns normally. The state after differs from the state before in the
  log lines, the \<^verbatim>\<open>getItem\<close> request and the fulfilled promise of \<^verbatim>\<open>init\<close> only: the
  store, the cache and the timers are as they were and no rejection is left unhandled.
  When the storage holds no snapshot or an empty one, \<^verbatim>\<open>restore\<close> returns at once,
  whatever the store holds: the only log line is that of \<^verbatim>\<open>init\<close>.
\<close>

theorem restore_conflict:
  assumes "microtasks s = []"
  shows
    "(subscriptions s \<noteq> [] \<and> ps \<noteq> [] \<longrightarrow>
        run_init c (Some ps) s =
          s\<lparr>logs := logs s @
              [(LTrace, Text ''Initialized''), (LError, Thrown RestoreConflictError),
               (LDebug, Text (''Failed to Restore subscriptions for '' @ subscription_context s)),
               (LError, Thrown RestoreConflictError)],
            requests := requests s @ [GetItem (storage_key s)],
            returned := returned s @ [(c, Inr VUnit)]\<rparr>) \<and>
     run_init c None s =
       s\<lparr>logs := logs s @ [(LTrace, Text ''Initialized'')],
         requests := requests s @ [GetItem (storage_key s)],
         returned := returned s @ [(c, Inr VUnit)]\<rparr> \<and>
     run_init c (Some []) s =
       s\<lparr>logs := logs s @ [(LTrace, Text ''Initialized'')],
         requests := requests s @ [GetItem (storage_key s)],
         returned := returned s @ [(c, Inr VUnit)]\<rparr>"
  using assms
  by (simp add: runs loop prims call_init_def init_0_def init_1_def restore_0_def restore_1_def
      restore_catch_def)

text \<open>\<^verbatim>\<open>init\<close> on \<open>ex_one\<close> when the storage holds the record of \<open>ex_one\<close>.\<close>

theorem restore_conflict_witness:
  "subscriptions ex_one \<noteq> [] \<and> microtasks ex_one = [] \<and>
   subscriptions (run_init 1 (Some (values_of ex_one)) ex_one) = subscriptions ex_one \<and>
   cached (run_init 1 (Some (values_of ex_one)) ex_one) = [] \<and>
   returned (run_init 1 (Some (values_of ex_one)) ex_one) = [(0, Inr VUnit), (1, Inr VUnit)] \<and>
   unhandled (run_init 1 (Some (values_of ex_one)) ex_one) = [] \<and>
   (LError, Thrown RestoreConflictError) \<in> set (logs (run_init 1 (Some (values_of ex_one)) ex_one))"
proof -
  have h: "subscriptions ex_one \<noteq> []" "values_of ex_one \<noteq> []" "microtasks ex_one = []"
    by code_simp+
  have e: "cached ex_one = []" "returned ex_one = [(0, Inr VUnit)]" "unhandled ex_one = []"
    by code_simp+
  show ?thesis
    using h e restore_conflict [OF h(3), of "values_of ex_one" 1] by simp
qed

text \<open>
  When the storage holds no snapshot, \<^verbatim>\<open>restore\<close> returns before it looks at the
  store: on a store that holds a record, no \<open>RestoreConflictError\<close> is raised or logged.
\<close>

theorem restore_without_snapshot_counterexample:
  "subscriptions ex_one \<noteq> [] \<and>
   logs ex_restore_none = logs ex_one @ [(LTrace, Text ''Initialized'')] \<and>
   (LError, Thrown RestoreConflictError) \<notin> set (logs ex_restore_none) \<and>
   returned ex_restore_none = [(0, Inr VUnit), (1, Inr VUnit)]"
  by code_simp

text \<open>
  C6. The timer of \<^verbatim>\<open>topicA\<close> fires: \<^verbatim>\<open>onTimeout\<close> calls \<^verbatim>\<open>deleteTimeout\<close>, then
  \<^verbatim>\<open>delete("topicA", "Expired")\<close>, whose continuation is queued. \<^verbatim>\<open>deleteTimeout\<close>
  leaves the entry of the topic in the \<open>timeout\<close> map: after the firing no timer of the
  topic is left to fire, the map still holds its entry, and arming an expiry for the
  topic changes nothing.
\<close>

theorem onTimeout_keeps_slot:
  "timers ex_one = [(0, ''topicA'', 1000)] \<and>
   timeout ex_one = [(''topicA'', 0)] \<and>
   timeout ex_fired = [(''topicA'', 0)] \<and>
   live ''topicA'' ex_fired = [] \<and>
   microtasks ex_fired = [(([Delete_1 ''topicA'' ''Expired''], Detached), Inr VUnit)] \<and>
   setTimeout ''topicA'' 5000 ex_fired = ex_fired"
  by code_simp

text \<open>
  C7. In every reachable state a topic has at most one timer still to fire, and such
  a timer has an entry in the \<open>timeout\<close> map. Arming an expiry for a topic that has an
  entry in the map changes nothing. So, from a reachable state whose map has no entry
  for the topic, arming an expiry that has not passed and then a second expiry leaves
  exactly one timer for the topic: due at the first expiry when that is at most
  2147483647 ms away, and due 1 ms after the arming when it is farther away, which is
  what the runtime makes of such a delay. Arming an expiry that has passed, with no
  entry in the map, calls the expiry handler at once: no timer is scheduled and the map
  is unchanged. The reachable states include those after a call of the public
  \<^verbatim>\<open>deleteTimeout\<close> and \<^verbatim>\<open>resetTimeout\<close>.
\<close>

theorem one_timer_per_topic:
  "(reachable s \<longrightarrow> length (live t s) \<le> 1) \<and>
   (has (timeout s) t \<longrightarrow> setTimeout t e s = s) \<and>
   (reachable s \<and> live t s \<noteq> [] \<longrightarrow> has (timeout s) t) \<and>
   (reachable s \<and> \<not> has (timeout s) t \<and> now s < e1 \<and> e1 - now s \<le> 2147483647 \<longrightarrow>
      live t (setTimeout t e2 (setTimeout t e1 s)) = [(next_timer s, t, e1)]) \<and>
   (reachable s \<and> \<not> has (timeout s) t \<and> 2147483647 < e1 - now s \<longrightarrow>
      live t (setTimeout t e2 (setTimeout t e1 s)) = [(next_timer s, t, now s + 1)]) \<and>
   (\<not> has (timeout s) t \<and> e \<le> now s \<longrightarrow>
      setTimeout t e s = onTimeout t s \<and>
      timers (setTimeout t e s) = timers s \<and> timeout (setTimeout t e s) = timeout s)"
proof (intro conjI impI)
  assume "reachable s"
  then have "controller_inv s" by (rule reachable_inv)
  then show "length (live t s) \<le> 1" using inv_live_le_one [of s t] by simp
next
  assume "has (timeout s) t"
  then show "setTimeout t e s = s" by (simp add: setTimeout_def)
next
  assume a: "reachable s \<and> live t s \<noteq> []"
  then have i: "controller_inv s" by (simp add: reachable_inv)
  from a obtain tm where "tm \<in> set (live t s)" by (cases "live t s") auto
  from inv_has_slot [OF i this] show "has (timeout s) t" by (simp add: has_def)
next
  assume a: "reachable s \<and> \<not> has (timeout s) t \<and> now s < e1 \<and> e1 - now s \<le> 2147483647"
  then have "reachable s" "\<not> has (timeout s) t" "now s < e1" by simp_all
  from two_arms [OF this, of e2] a
  show "live t (setTimeout t e2 (setTimeout t e1 s)) = [(next_timer s, t, e1)]"
    by (simp add: runtime_delay_cases(1))
next
  assume a: "reachable s \<and> \<not> has (timeout s) t \<and> 2147483647 < e1 - now s"
  then have "reachable s" "\<not> has (timeout s) t" "now s < e1" by simp_all
  from two_arms [OF this, of e2] a
  show "live t (setTimeout t e2 (setTimeout t e1 s)) = [(next_timer s, t, now s + 1)]"
    by (simp add: runtime_delay_cases(2))
next
  assume a: "\<not> has (timeout s) t \<and> e \<le> now s"
  then show eq: "setTimeout t e s = onTimeout t s"
    by (simp add: setTimeout_def)
  have "core (onTimeout t s) = core (deleteTimeout t s)"
    unfolding onTimeout_def by (rule core_same(8))
  with a have "core (onTimeout t s) = core s"
    by (simp add: deleteTimeout_def)
  then show "timers (setTimeout t e s) = timers s" "timeout (setTimeout t e s) = timeout s"
    unfolding eq by (simp_all add: core_def)
qed

text \<open>
  A second arm on \<open>ex_one\<close>; two arms on a new controller, the first 500 ms and then
  3000000000 ms away; and an arm at time 10 of the expiry 5.
\<close>

theorem one_timer_per_topic_witness:
  "reachable ex_one \<and> has (timeout ex_one) ''topicA'' \<and>
   live ''topicA'' ex_one = [(0, ''topicA'', 1000)] \<and>
   length (live ''topicA'' ex_one) \<le> 1 \<and>
   setTimeout ''topicA'' 7000 ex_one = ex_one \<and>
   reachable ex_initial \<and> \<not> has (timeout ex_initial) ''topicA'' \<and> now ex_initial < 500 \<and>
   live ''topicA'' (setTimeout ''topicA'' 900 (setTimeout ''topicA'' 500 ex_initial)) =
     [(0, ''topicA'', 500)] \<and>
   live ''topicA'' (setTimeout ''topicA'' 900 (setTimeout ''topicA'' 3000000000 ex_initial)) =
     [(0, ''topicA'', 1)] \<and>
   \<not> has (timeout ex_late) ''topicA'' \<and> now ex_late = 10 \<and>
   setTimeout ''topicA'' 5 ex_late = onTimeout ''topicA'' ex_late \<and>
   timers (setTimeout ''topicA'' 5 ex_late) = [] \<and> timeout (setTimeout ''topicA'' 5 ex_late) = []"
proof -
  have r1: "reachable ex_one"
    unfolding ex_one_def run_set_def ex_initial_def by (intro reachable.intros)
  have r0: "reachable ex_initial"
    unfolding ex_initial_def by (rule reachable.r_initial)
  have h1: "has (timeout ex_one) ''topicA''" "live ''topicA'' ex_one = [(0, ''topicA'', 1000)]"
    by code_simp+
  have h0: "\<not> has (timeout ex_initial) ''topicA''" "now ex_initial < 500" "next_timer ex_initial = 0"
    "500 - now ex_initial \<le> 2147483647" "2147483647 < 3000000000 - now ex_initial"
    "now ex_initial = 0"
    by code_simp+
  have hl: "\<not> has (timeout ex_late) ''topicA''" "now ex_late = 10" "5 \<le> now ex_late"
    "timers ex_late = []" "timeout ex_late = []"
    by code_simp+
  note a = one_timer_per_topic [of ex_one "''topicA''" 7000 500 900]
  note b = one_timer_per_topic [of ex_initial "''topicA''" 7000 500 900]
  note c = one_timer_per_topic [of ex_initial "''topicA''" 7000 3000000000 900]
  note d = one_timer_per_topic [of ex_late "''topicA''" 5 500 900]
  from a r1 have 1: "length (live ''topicA'' ex_one) \<le> 1" by blast
  from a h1(1) have 2: "setTimeout ''topicA'' 7000 ex_one = ex_one" by blast
  from b r0 h0(1,2,4)
  have "live ''topicA'' (setTimeout ''topicA'' 900 (setTimeout ''topicA'' 500 ex_initial)) =
     [(next_timer ex_initial, ''topicA'', 500)]" by blast
  then have 3: "live ''topicA'' (setTimeout ''topicA'' 900 (setTimeout ''topicA'' 500 ex_initial)) =
     [(0, ''topicA'', 500)]" by (simp add: h0(3))
  from c r0 h0(1,5)
  have "live ''topicA'' (setTimeout ''topicA'' 900 (setTimeout ''topicA'' 3000000000 ex_initial)) =
     [(next_timer ex_initial, ''topicA'', now ex_initial + 1)]" by blast
  then have 4: "live ''topicA'' (setTimeout ''topicA'' 900 (setTimeout ''topicA'' 3000000000 ex_initial)) =
     [(0, ''topicA'', 1)]" by (simp add: h0(3) h0(6))
  from d hl(1,3) have 5: "setTimeout ''topicA'' 5 ex_late = onTimeout ''topicA'' ex_late"
    by blast
  from d hl(1,3) have "timers (setTimeout ''topicA'' 5 ex_late) = timers ex_late"
    by blast
  then have 6: "timers (setTimeout ''topicA'' 5 ex_late) = []" by (simp add: hl(4))
  from d hl(1,3) have "timeout (setTimeout ''topicA'' 5 ex_late) = timeout ex_late"
    by blast
  then have 7: "timeout (setTimeout ''topicA'' 5 ex_late) = []" by (simp add: hl(5))
  show ?thesis
    by (intro conjI r1 h1 1 2 r0 h0(1) h0(2) 3 4 hl(1) hl(2) 5 6 7)
qed

text \<open>
  Two expiries that have passed, armed one after the other at time 10 with no entry in
  the map: each arm calls the expiry handler at once and schedules nothing, so no timer
  of the topic is left, not one.
\<close>

theorem two_expired_arms_counterexample:
  "timers ex_late = [] \<and> timeout ex_late = [] \<and> now ex_late = 10 \<and>
   live ''topicA'' ex_armed_twice = [] \<and>
   length (live ''topicA'' ex_armed_twice) \<noteq> 1"
  by code_simp

text \<open>
  C8. \<^verbatim>\<open>set\<close> of a topic that the store does not hold, with an expiry that has passed
  and no entry for the topic in the \<open>timeout\<close> map, on a controller with an open gate
  and an empty job queue. In the job that arms the expiry no timer is scheduled and the
  \<open>timeout\<close> map is unchanged: the handler runs at once and starts
  \<^verbatim>\<open>delete(topic, "Expired")\<close>, whose continuation is queued before that of \<^verbatim>\<open>set\<close>, and
  no event is emitted. Two jobs later \<^verbatim>\<open>set\<close> has returned and emitted \<^verbatim>\<open>created\<close>, and
  the store holds the record. Two more jobs later \<^verbatim>\<open>delete\<close> has removed the record and
  called \<^verbatim>\<open>relayer.unsubscribe\<close>. The \<^verbatim>\<open>deleted\<close> event with the reason \<^verbatim>\<open>"Expired"\<close> is
  emitted when the relayer has answered that call.
\<close>

theorem expired_arm_fires_detached_delete:
  assumes idle: "microtasks s = []" and enabled: "cached s = []"
    and fresh: "map_of (subscriptions s) t = None"
    and keys: "encrypted s \<longrightarrow> decryptKeys os \<noteq> None"
    and slot: "\<not> has (timeout s) t" and past: "resolve_expiry os s \<le> now s"
  shows
    "(let s1 = tick (settle (length (pending s)) (Inr (VId i)) (tick (call_set c t d os s)));
          s2 = tick (tick s1);
          s3 = tick (tick s2);
          s4 = tick (settle (Suc (length (pending s))) (Inr VUnit) s3)
      in timers s1 = timers s \<and> timeout s1 = timeout s \<and>
         microtasks s1 =
           [(([Delete_1 t ''Expired''], Detached), Inr VUnit), (([Set_2 t d], Root c), Inr VUnit)] \<and>
         emitted s1 = emitted s \<and> returned s1 = returned s \<and>
         returned s2 = returned s @ [(c, Inr VUnit)] \<and>
         emitted s2 = emitted s @ [Created t d] \<and>
         map_of (subscriptions s2) t = Some \<lparr>p_id = i, p_topic = t, p_data = d, p_opts = os\<rparr> \<and>
         map_of (subscriptions s3) t = None \<and>
         emitted s3 = emitted s @ [Created t d] \<and>
         last (requests s3) = Unsubscribe i (relay os) (decryptKeys os) \<and>
         emitted s4 = emitted s @ [Created t d, Deleted t d ''Expired''] \<and>
         returned s4 = returned s @ [(c, Inr VUnit)])"
proof -
  let ?rec = "\<lparr>p_id = i, p_topic = t, p_data = d, p_opts = os\<rparr>"
  let ?U = "AList.update t ?rec (subscriptions s)"
  let ?save = "SetItem (storage_key s) (map snd ?U)"
  let ?unsub = "Unsubscribe i (relay os) (decryptKeys os)"
  define s1 where
    "s1 = tick (settle (length (pending s)) (Inr (VId i)) (tick (call_set c t d os s)))"
  define s2 where "s2 = tick (tick s1)"
  define s3 where "s3 = tick (tick s2)"
  define s4 where "s4 = tick (settle (Suc (length (pending s))) (Inr VUnit) s3)"
  have 1: "s1 =
      s\<lparr>subscriptions := ?U,
        logs := logs s @ [(LDebug, Text ''Setting subscription''), (LTrace, Method ''set'')],
        requests := requests s @ [Subscribe t os],
        microtasks :=
          [(([Delete_1 t ''Expired''], Detached), Inr VUnit), (([Set_2 t d], Root c), Inr VUnit)]\<rparr>"
    unfolding s1_def using assms
    by (auto simp add: loop prims sections Let_def has_def setTimeout_def onTimeout_def
        deleteTimeout_def resolve_expiry_def split: option.splits)
  have 2: "s2 =
      s\<lparr>subscriptions := ?U,
        emitted := emitted s @ [Created t d],
        logs := logs s @
          [(LDebug, Text ''Setting subscription''), (LTrace, Method ''set''),
           (LDebug, Text ''Deleting subscription''), (LTrace, Method ''delete''),
           (LInfo, Emitting ''created''), (LDebug, EventData ''created'')],
        requests := requests s @ [Subscribe t os, ?save],
        pending := pending s @ [(?save, ([Persist_1], Detached))],
        microtasks := [(([GetSubscription_1 t, Delete_2 t ''Expired''], Detached), Inr VUnit)],
        returned := returned s @ [(c, Inr VUnit)]\<rparr>"
    unfolding s2_def 1 using enabled
    by (simp add: loop prims sections Let_def values_of_def)
  have 3: "s3 =
      s\<lparr>subscriptions := AList.delete t ?U,
        emitted := emitted s @ [Created t d],
        logs := logs s @
          [(LDebug, Text ''Setting subscription''), (LTrace, Method ''set''),
           (LDebug, Text ''Deleting subscription''), (LTrace, Method ''delete''),
           (LInfo, Emitting ''created''), (LDebug, EventData ''created'')],
        requests := requests s @ [Subscribe t os, ?save, ?unsub],
        pending := pending s @
          [(?save, ([Persist_1], Detached)), (?unsub, ([Delete_3 t ''Expired'' ?rec], Detached))],
        microtasks := [],
        returned := returned s @ [(c, Inr VUnit)]\<rparr>"
    unfolding s3_def 2
    by (simp add: loop prims sections Let_def update_conv')
  have 4: "emitted s4 = emitted s @ [Created t d, Deleted t d ''Expired'']"
    "returned s4 = returned s @ [(c, Inr VUnit)]"
    unfolding s4_def 3
    by (simp_all add: loop prims sections Let_def values_of_def nth_append)
  have "timers s1 = timers s \<and> timeout s1 = timeout s \<and>
         microtasks s1 =
           [(([Delete_1 t ''Expired''], Detached), Inr VUnit), (([Set_2 t d], Root c), Inr VUnit)] \<and>
         emitted s1 = emitted s \<and> returned s1 = returned s \<and>
         returned s2 = returned s @ [(c, Inr VUnit)] \<and>
         emitted s2 = emitted s @ [Created t d] \<and>
         map_of (subscriptions s2) t = Some ?rec \<and>
         map_of (subscriptions s3) t = None \<and>
         emitted s3 = emitted s @ [Created t d] \<and>
         last (requests s3) = ?unsub \<and>
         emitted s4 = emitted s @ [Created t d, Deleted t d ''Expired''] \<and>
         returned s4 = returned s @ [(c, Inr VUnit)]"
    by (simp add: 1 2 3 4 update_conv' delete_conv')
  then show ?thesis
    unfolding s1_def s2_def s3_def s4_def Let_def .
qed

text \<open>\<^verbatim>\<open>set\<close> with the expiry 5 at time 10.\<close>

theorem expired_arm_fires_detached_delete_witness:
  "microtasks ex_late = [] \<and> cached ex_late = [] \<and>
   map_of (subscriptions ex_late) ''topicA'' = None \<and> \<not> encrypted ex_late \<and>
   \<not> has (timeout ex_late) ''topicA'' \<and> resolve_expiry ex_past_opts ex_late \<le> now ex_late \<and>
   returned ex_expired = [(0, Inr VUnit)] \<and>
   emitted ex_expired = [Created ''topicA'' [(''x'', JNum 1)]] \<and>
   emitted (tick (settle 1 (Inr VUnit) (tick (tick ex_expired)))) =
     [Created ''topicA'' [(''x'', JNum 1)], Deleted ''topicA'' [(''x'', JNum 1)] ''Expired'']"
proof -
  have h: "microtasks ex_late = []" "cached ex_late = []"
    "map_of (subscriptions ex_late) ''topicA'' = None"
    "encrypted ex_late \<longrightarrow> decryptKeys ex_past_opts \<noteq> None"
    "\<not> has (timeout ex_late) ''topicA''" "resolve_expiry ex_past_opts ex_late \<le> now ex_late"
    by code_simp+
  have e: "\<not> encrypted ex_late" "pending ex_late = []" "returned ex_late = []"
    "emitted ex_late = []"
    by code_simp+
  note a = expired_arm_fires_detached_delete [OF h, of "''id1''" 0 "[(''x'', JNum 1)]"]
  from a have 1: "returned ex_expired = [(0, Inr VUnit)]"
    and 2: "emitted ex_expired = [Created ''topicA'' [(''x'', JNum 1)]]"
    and 3: "emitted (tick (settle 1 (Inr VUnit) (tick (tick ex_expired)))) =
     [Created ''topicA'' [(''x'', JNum 1)], Deleted ''topicA'' [(''x'', JNum 1)] ''Expired'']"
    unfolding ex_expired_def by (simp_all add: Let_def e)
  show ?thesis
    by (intro conjI h(1) h(2) h(3) e(1) h(5) h(6) 1 2 3)
qed

text \<open>
  When that \<^verbatim>\<open>set\<close> has returned to its caller, \<^verbatim>\<open>created\<close> is the only event emitted
  and the store still holds the record: no \<^verbatim>\<open>deleted\<close> event came before the return.
\<close>

theorem set_returns_before_deleted_counterexample:
  "returned ex_expired = [(0, Inr VUnit)] \<and>
   emitted ex_expired = [Created ''topicA'' [(''x'', JNum 1)]] \<and>
   Deleted ''topicA'' [(''x'', JNum 1)] ''Expired'' \<notin> set (emitted ex_expired) \<and>
   has (subscriptions ex_expired) ''topicA''"
  by code_simp

text \<open>
  C9. The storage rejects the \<^verbatim>\<open>setItem\<close> that the \<^verbatim>\<open>created\<close> listener started with
  \<^verbatim>\<open>this.persist()\<close>: the promise of \<^verbatim>\<open>persist\<close> rejects and nobody handles the rejection.
  Nothing is added to the log, which holds no error line; the store keeps the record
  and the promise of \<^verbatim>\<open>set\<close> stays fulfilled.
\<close>

theorem persist_failure_unhandled:
  "pending ex_one =
     [(SetItem ''wc@2:client//session''
         [\<lparr>p_id = ''id1'', p_topic = ''topicA'', p_data = [(''x'', JNum 1)], p_opts = ex_opts\<rparr>],
       ([Persist_1], Detached))] \<and>
   unhandled ex_persist_failed = [IOError ''quota exceeded''] \<and>
   logs ex_persist_failed = logs ex_one \<and>
   filter (\<lambda>l. fst l = LError) (logs ex_persist_failed) = [] \<and>
   subscriptions ex_persist_failed = subscriptions ex_one \<and>
   returned ex_persist_failed = [(0, Inr VUnit)]"
  by code_simp

text \<open>
  C10. A public method is suspended exactly when \<open>cached\<close> is not empty: with a
  non-empty \<open>cached\<close> the call registers a listener for \<^verbatim>\<open>enabled\<close> (\<open>waiting\<close>) and queues
  only the runtime's job \<open>Adopt\<close> for the promise of the gate, not its continuation;
  with an empty \<open>cached\<close> its continuation is queued at once. So a \<^verbatim>\<open>connect\<close> on a
  controller whose \<open>cached\<close> and store are both empty emits \<^verbatim>\<open>disabled\<close> and leaves
  \<open>cached\<close> empty, and a call made after it is not suspended. \<^verbatim>\<open>enable\<close> empties \<open>cached\<close>
  whatever it held and calls every listener: no call is left waiting. For a waiter
  whose job \<open>Adopt\<close> has run the reaction \<open>Hop\<close> is queued, ahead of the continuation of
  the caller of \<^verbatim>\<open>enable\<close>, and that job queues the continuation of the waiter; the
  other waiters are \<open>fired\<close>, and their job \<open>Adopt\<close> queues the reaction \<open>Hop\<close>. When the
  queue is empty and every job \<open>Adopt\<close> has run, the jobs that \<^verbatim>\<open>enable\<close> queues leave
  the continuation of the caller of \<^verbatim>\<open>enable\<close> first in the queue and behind it the
  continuation of every waiter, in the order of their registration.
\<close>

theorem gate_closed_iff_cached:
  "(cached s \<noteq> [] \<longrightarrow>
      call_set c t d os s =
        s\<lparr>waiting := waiting s @ [(next_waiter s, False, ([Set_1 t d os], Root c))],
          next_waiter := Suc (next_waiter s),
          microtasks := microtasks s @ [(([Adopt (next_waiter s)], Detached), Inr VUnit)]\<rparr> \<and>
      call_get c t s =
        s\<lparr>waiting := waiting s @ [(next_waiter s, False, ([Get_1 t], Root c))],
          next_waiter := Suc (next_waiter s),
          microtasks := microtasks s @ [(([Adopt (next_waiter s)], Detached), Inr VUnit)]\<rparr> \<and>
      call_update c t u s =
        s\<lparr>waiting := waiting s @ [(next_waiter s, False, ([Update_1 t u], Root c))],
          next_waiter := Suc (next_waiter s),
          microtasks := microtasks s @ [(([Adopt (next_waiter s)], Detached), Inr VUnit)]\<rparr> \<and>
      call_delete c t r s =
        s\<lparr>waiting := waiting s @ [(next_waiter s, False, ([Delete_1 t r], Root c))],
          next_waiter := Suc (next_waiter s),
          microtasks := microtasks s @ [(([Adopt (next_waiter s)], Detached), Inr VUnit)]\<rparr>) \<and>
   (cached s = [] \<longrightarrow>
      call_set c t d os s =
        s\<lparr>microtasks := microtasks s @ [(([Set_1 t d os], Root c), Inr VUnit)]\<rparr> \<and>
      call_get c t s =
        s\<lparr>microtasks := microtasks s @ [(([Get_1 t], Root c), Inr VUnit)]\<rparr> \<and>
      call_update c t u s =
        s\<lparr>microtasks := microtasks s @ [(([Update_1 t u], Root c), Inr VUnit)]\<rparr> \<and>
      call_delete c t r s =
        s\<lparr>microtasks := microtasks s @ [(([Delete_1 t r], Root c), Inr VUnit)]\<rparr>) \<and>
   (cached s = [] \<and> subscriptions s = [] \<longrightarrow>
      cached (connect s) = [] \<and>
      emitted (connect s) = emitted s @ [Disabled] \<and>
      waiting (call_get c t (connect s)) = waiting (connect s) \<and>
      microtasks (call_get c t (connect s)) =
        microtasks (connect s) @ [(([Get_1 t], Root c), Inr VUnit)]) \<and>
   cached (enable thr s) = [] \<and>
   waiting (enable thr s) = [] \<and>
   fired (enable thr s) =
     fired s @ map (\<lambda>w. (fst w, snd (snd w))) (filter (\<lambda>w. \<not> fst (snd w)) (waiting s)) \<and>
   microtasks (enable thr s) =
     microtasks s @
     map (\<lambda>w. (push Hop (snd (snd w)), Inr VUnit)) (filter (\<lambda>w. fst (snd w)) (waiting s)) @
     [(thr, Inr VUnit)] \<and>
   (microtasks s = (push Hop x, res) # q \<longrightarrow> tick s = s\<lparr>microtasks := q @ [(x, res)]\<rparr>) \<and>
   (microtasks s = (([Adopt w], Detached), res) # q \<and> map_of (waiting s) w = Some (a, x) \<longrightarrow>
      tick s = s\<lparr>microtasks := q, waiting := AList.update w (True, x) (waiting s)\<rparr>) \<and>
   (microtasks s = (([Adopt w], Detached), res) # q \<and> map_of (waiting s) w = None \<and>
    map_of (fired s) w = Some x \<longrightarrow>
      tick s =
        s\<lparr>microtasks := q @ [(push Hop x, Inr VUnit)], fired := AList.delete w (fired s)\<rparr>) \<and>
   (microtasks s = [] \<and> list_all (\<lambda>w. fst (snd w)) (waiting s) \<longrightarrow>
      (tick ^^ length (waiting s)) (enable thr s) =
        s\<lparr>cached := [], emitted := emitted s @ [Enabled], waiting := [],
          microtasks := (thr, Inr VUnit) # map (\<lambda>w. (snd (snd w), Inr VUnit)) (waiting s)\<rparr>)"
proof -
  have 1: "cached s \<noteq> [] \<longrightarrow>
      call_set c t d os s =
        s\<lparr>waiting := waiting s @ [(next_waiter s, False, ([Set_1 t d os], Root c))],
          next_waiter := Suc (next_waiter s),
          microtasks := microtasks s @ [(([Adopt (next_waiter s)], Detached), Inr VUnit)]\<rparr> \<and>
      call_get c t s =
        s\<lparr>waiting := waiting s @ [(next_waiter s, False, ([Get_1 t], Root c))],
          next_waiter := Suc (next_waiter s),
          microtasks := microtasks s @ [(([Adopt (next_waiter s)], Detached), Inr VUnit)]\<rparr> \<and>
      call_update c t u s =
        s\<lparr>waiting := waiting s @ [(next_waiter s, False, ([Update_1 t u], Root c))],
          next_waiter := Suc (next_waiter s),
          microtasks := microtasks s @ [(([Adopt (next_waiter s)], Detached), Inr VUnit)]\<rparr> \<and>
      call_delete c t r s =
        s\<lparr>waiting := waiting s @ [(next_waiter s, False, ([Delete_1 t r], Root c))],
          next_waiter := Suc (next_waiter s),
          microtasks := microtasks s @ [(([Adopt (next_waiter s)], Detached), Inr VUnit)]\<rparr>"
    by (simp add: prims sections)
  have 2: "cached s = [] \<longrightarrow>
      call_set c t d os s =
        s\<lparr>microtasks := microtasks s @ [(([Set_1 t d os], Root c), Inr VUnit)]\<rparr> \<and>
      call_get c t s =
        s\<lparr>microtasks := microtasks s @ [(([Get_1 t], Root c), Inr VUnit)]\<rparr> \<and>
      call_update c t u s =
        s\<lparr>microtasks := microtasks s @ [(([Update_1 t u], Root c), Inr VUnit)]\<rparr> \<and>
      call_delete c t r s =
        s\<lparr>microtasks := microtasks s @ [(([Delete_1 t r], Root c), Inr VUnit)]\<rparr>"
    by (simp add: prims sections)
  have 3: "cached s = [] \<and> subscriptions s = [] \<longrightarrow>
      cached (connect s) = [] \<and>
      emitted (connect s) = emitted s @ [Disabled] \<and>
      waiting (call_get c t (connect s)) = waiting (connect s) \<and>
      microtasks (call_get c t (connect s)) =
        microtasks (connect s) @ [(([Get_1 t], Root c), Inr VUnit)]"
    by (simp add: prims sections connect_def reset_0_def disable_def resetTimeout_eq
        values_of_def)
  have 4: "cached (enable thr s) = []" "waiting (enable thr s) = []"
    "fired (enable thr s) =
       fired s @ map (\<lambda>w. (fst w, snd (snd w))) (filter (\<lambda>w. \<not> fst (snd w)) (waiting s))"
    "microtasks (enable thr s) =
       microtasks s @
       map (\<lambda>w. (push Hop (snd (snd w)), Inr VUnit)) (filter (\<lambda>w. fst (snd w)) (waiting s)) @
       [(thr, Inr VUnit)]"
    by (simp_all add: enable_eq)
  have 5: "microtasks s = (push Hop x, res) # q \<longrightarrow> tick s = s\<lparr>microtasks := q @ [(x, res)]\<rparr>"
    by (simp add: tick_def resume_def enqueue_def push_def)
  have 6: "microtasks s = (([Adopt w], Detached), res) # q \<and> map_of (waiting s) w = Some (a, x) \<longrightarrow>
      tick s = s\<lparr>microtasks := q, waiting := AList.update w (True, x) (waiting s)\<rparr>"
    by (simp add: tick_def resume_def adopt_def)
  have 7: "microtasks s = (([Adopt w], Detached), res) # q \<and> map_of (waiting s) w = None \<and>
    map_of (fired s) w = Some x \<longrightarrow>
      tick s =
        s\<lparr>microtasks := q @ [(push Hop x, Inr VUnit)], fired := AList.delete w (fired s)\<rparr>"
    by (simp add: tick_def resume_def adopt_def enqueue_def)
  have 8: "microtasks s = [] \<and> list_all (\<lambda>w. fst (snd w)) (waiting s) \<longrightarrow>
      (tick ^^ length (waiting s)) (enable thr s) =
        s\<lparr>cached := [], emitted := emitted s @ [Enabled], waiting := [],
          microtasks := (thr, Inr VUnit) # map (\<lambda>w. (snd (snd w), Inr VUnit)) (waiting s)\<rparr>"
    using enable_adopted [of s thr] by blast
  from 1 2 3 4 5 6 7 8 show ?thesis by (intro conjI)
qed

text \<open>
  A call during a replay and its job \<open>Adopt\<close>; a \<^verbatim>\<open>connect\<close> on a new controller;
  \<^verbatim>\<open>enable\<close> after and before the job \<open>Adopt\<close> of the waiting call; the end of the
  replay, where the continuation of \<^verbatim>\<open>reset\<close> is queued ahead of that of the waiting
  \<^verbatim>\<open>get\<close>; and a \<^verbatim>\<open>get\<close> called while \<^verbatim>\<open>restore\<close> replays, which logs after \<^verbatim>\<open>restore\<close>
  has logged its success.
\<close>

theorem gate_closed_iff_cached_witness:
  "cached ex_replaying \<noteq> [] \<and>
   ex_waiting =
     ex_replaying\<lparr>waiting := [(0, False, ([Get_1 ''topicA''], Root 1))], next_waiter := 1,
       microtasks := [(([Adopt 0], Detached), Inr VUnit)]\<rparr> \<and>
   cached ex_initial = [] \<and> subscriptions ex_initial = [] \<and>
   cached (connect ex_initial) = [] \<and>
   emitted (connect ex_initial) = [Disabled] \<and>
   microtasks (call_get 1 ''topicA'' (connect ex_initial)) =
     [(([Reset_1], Detached), Inr VUnit), (([Get_1 ''topicA''], Root 1), Inr VUnit)] \<and>
   ex_adopted =
     ex_waiting\<lparr>microtasks := [], waiting := [(0, True, ([Get_1 ''topicA''], Root 1))]\<rparr> \<and>
   cached (enable ([Reset_3], Detached) ex_adopted) = [] \<and>
   waiting (enable ([Reset_3], Detached) ex_adopted) = [] \<and>
   microtasks (enable ([Reset_3], Detached) ex_adopted) =
     [(([Hop, Get_1 ''topicA''], Root 1), Inr VUnit), (([Reset_3], Detached), Inr VUnit)] \<and>
   microtasks (tick (enable ([Reset_3], Detached) ex_adopted)) =
     [(([Reset_3], Detached), Inr VUnit), (([Get_1 ''topicA''], Root 1), Inr VUnit)] \<and>
   fired (enable ([Reset_3], Detached) ex_waiting) = [(0, ([Get_1 ''topicA''], Root 1))] \<and>
   microtasks (enable ([Reset_3], Detached) ex_waiting) =
     [(([Adopt 0], Detached), Inr VUnit), (([Reset_3], Detached), Inr VUnit)] \<and>
   microtasks (tick (enable ([Reset_3], Detached) ex_waiting)) =
     [(([Reset_3], Detached), Inr VUnit), (([Hop, Get_1 ''topicA''], Root 1), Inr VUnit)] \<and>
   microtasks ex_released =
     [(([Hop, Get_1 ''topicA''], Root 1), Inr VUnit), (([Reset_3], Detached), Inr VUnit)] \<and>
   microtasks (tick ex_released) =
     [(([Reset_3], Detached), Inr VUnit), (([Get_1 ''topicA''], Root 1), Inr VUnit)] \<and>
   cached ex_restoring \<noteq> [] \<and>
   logs ex_restored_get =
     [(LTrace, Text ''Initialized''),
      (LDebug, Text ''Successfully Restored subscriptions for session''),
      (LTrace, Method ''restore''),
      (LDebug, Text ''Getting subscription''), (LTrace, Method ''get'')] \<and>
   returned ex_restored_get = [(0, Inr VUnit), (1, Inr (VData [(''x'', JNum 1)]))] \<and>
   microtasks ex_restored_get = []"
proof -
  let ?g = "([Get_1 ''topicA''], Root 1)"
  let ?r = "([Reset_3], Detached)"
  have c: "cached ex_replaying \<noteq> []" "waiting ex_replaying = []" "microtasks ex_replaying = []"
    "next_waiter ex_replaying = 0"
    by code_simp+
  have i: "cached ex_initial = []" "subscriptions ex_initial = []" "emitted ex_initial = []"
    "microtasks (connect ex_initial) = [(([Reset_1], Detached), Inr VUnit)]"
    by code_simp+
  have w: "microtasks ex_waiting = (([Adopt 0], Detached), Inr VUnit) # []"
    "map_of (waiting ex_waiting) 0 = Some (False, ?g)"
    "waiting ex_waiting = [(0, False, ?g)]" "fired ex_waiting = []"
    by code_simp+
  have a: "microtasks ex_adopted = []" "list_all (\<lambda>w. fst (snd w)) (waiting ex_adopted)"
    "waiting ex_adopted = [(0, True, ?g)]"
    by code_simp+
  have e: "microtasks (enable ?r ex_waiting) = (([Adopt 0], Detached), Inr VUnit) # [(?r, Inr VUnit)]"
    "map_of (waiting (enable ?r ex_waiting)) 0 = None"
    "map_of (fired (enable ?r ex_waiting)) 0 = Some ?g"
    by code_simp+
  have l: "microtasks ex_released = (push Hop ?g, Inr VUnit) # [(?r, Inr VUnit)]"
    by code_simp
  have v: "cached ex_restoring \<noteq> []"
    "logs ex_restored_get =
     [(LTrace, Text ''Initialized''),
      (LDebug, Text ''Successfully Restored subscriptions for session''),
      (LTrace, Method ''restore''),
      (LDebug, Text ''Getting subscription''), (LTrace, Method ''get'')]"
    "returned ex_restored_get = [(0, Inr VUnit), (1, Inr (VData [(''x'', JNum 1)]))]"
    "microtasks ex_restored_get = []"
    by code_simp+
  note t1 = gate_closed_iff_cached [of ex_replaying 1 "''topicA''" "[]" ex_opts "[]" "[]"
      ?r ?g "Inr VUnit" "[]" 0 False]
  note t2 = gate_closed_iff_cached [of ex_initial 1 "''topicA''" "[]" ex_opts "[]" "[]"
      ?r ?g "Inr VUnit" "[]" 0 False]
  note t3 = gate_closed_iff_cached [of ex_waiting 1 "''topicA''" "[]" ex_opts "[]" "[]"
      ?r ?g "Inr VUnit" "[]" 0 False]
  note t4 = gate_closed_iff_cached [of ex_adopted 1 "''topicA''" "[]" ex_opts "[]" "[]"
      ?r ?g "Inr VUnit" "[]" 0 False]
  note t5 = gate_closed_iff_cached [of "enable ?r ex_waiting" 1 "''topicA''" "[]" ex_opts "[]" "[]"
      ?r ?g "Inr VUnit" "[(?r, Inr VUnit)]" 0 False]
  note t6 = gate_closed_iff_cached [of ex_released 1 "''topicA''" "[]" ex_opts "[]" "[]"
      ?r ?g "Inr VUnit" "[(?r, Inr VUnit)]" 0 False]
  from t1 c(1) have "call_get 1 ''topicA'' ex_replaying =
      ex_replaying\<lparr>waiting := waiting ex_replaying @ [(next_waiter ex_replaying, False, ?g)],
        next_waiter := Suc (next_waiter ex_replaying),
        microtasks := microtasks ex_replaying @
          [(([Adopt (next_waiter ex_replaying)], Detached), Inr VUnit)]\<rparr>"
    by blast
  then have 1: "ex_waiting =
     ex_replaying\<lparr>waiting := [(0, False, ?g)], next_waiter := 1,
       microtasks := [(([Adopt 0], Detached), Inr VUnit)]\<rparr>"
    unfolding ex_waiting_def by (simp add: c)
  from t2 i(1,2) have 2: "cached (connect ex_initial) = []" by blast
  from t2 i(1,2) have "emitted (connect ex_initial) = emitted ex_initial @ [Disabled]" by blast
  then have 3: "emitted (connect ex_initial) = [Disabled]" by (simp add: i(3))
  from t2 i(1,2) have "microtasks (call_get 1 ''topicA'' (connect ex_initial)) =
      microtasks (connect ex_initial) @ [(?g, Inr VUnit)]" by blast
  then have 4: "microtasks (call_get 1 ''topicA'' (connect ex_initial)) =
     [(([Reset_1], Detached), Inr VUnit), (?g, Inr VUnit)]"
    by (simp add: i(4))
  from t3 w(1,2) have "tick ex_waiting =
      ex_waiting\<lparr>microtasks := [], waiting := AList.update 0 (True, ?g) (waiting ex_waiting)\<rparr>"
    by blast
  then have 5: "ex_adopted = ex_waiting\<lparr>microtasks := [], waiting := [(0, True, ?g)]\<rparr>"
    unfolding ex_adopted_def by (simp add: w(3))
  from t4 have 6: "cached (enable ?r ex_adopted) = []" by blast
  from t4 have 7: "waiting (enable ?r ex_adopted) = []" by blast
  from t4 have "microtasks (enable ?r ex_adopted) =
     microtasks ex_adopted @
     map (\<lambda>w. (push Hop (snd (snd w)), Inr VUnit)) (filter (\<lambda>w. fst (snd w)) (waiting ex_adopted)) @
     [(?r, Inr VUnit)]" by blast
  then have 8: "microtasks (enable ?r ex_adopted) =
     [(([Hop, Get_1 ''topicA''], Root 1), Inr VUnit), (?r, Inr VUnit)]"
    by (simp add: a(1) a(3) push_def)
  from t4 a(1,2) have "(tick ^^ length (waiting ex_adopted)) (enable ?r ex_adopted) =
        ex_adopted\<lparr>cached := [], emitted := emitted ex_adopted @ [Enabled], waiting := [],
          microtasks := (?r, Inr VUnit) #
            map (\<lambda>w. (snd (snd w), Inr VUnit)) (waiting ex_adopted)\<rparr>"
    by blast
  then have 9: "microtasks (tick (enable ?r ex_adopted)) = [(?r, Inr VUnit), (?g, Inr VUnit)]"
    by (simp add: a(3))
  from t3 have "fired (enable ?r ex_waiting) =
     fired ex_waiting @
     map (\<lambda>w. (fst w, snd (snd w))) (filter (\<lambda>w. \<not> fst (snd w)) (waiting ex_waiting))"
    by blast
  then have 10: "fired (enable ?r ex_waiting) = [(0, ?g)]"
    by (simp add: w(3) w(4))
  from t5 e have "tick (enable ?r ex_waiting) =
      (enable ?r ex_waiting)\<lparr>microtasks := [(?r, Inr VUnit)] @ [(push Hop ?g, Inr VUnit)],
        fired := AList.delete 0 (fired (enable ?r ex_waiting))\<rparr>"
    by blast
  then have 11: "microtasks (tick (enable ?r ex_waiting)) =
     [(?r, Inr VUnit), (([Hop, Get_1 ''topicA''], Root 1), Inr VUnit)]"
    by (simp add: push_def)
  from t6 l have "tick ex_released = ex_released\<lparr>microtasks := [(?r, Inr VUnit)] @ [(?g, Inr VUnit)]\<rparr>"
    by blast
  then have 12: "microtasks (tick ex_released) = [(?r, Inr VUnit), (?g, Inr VUnit)]"
    by simp
  have 13: "microtasks ex_released =
     [(([Hop, Get_1 ''topicA''], Root 1), Inr VUnit), (?r, Inr VUnit)]"
    using l by (simp add: push_def)
  have 14: "microtasks (enable ?r ex_waiting) =
     [(([Adopt 0], Detached), Inr VUnit), (?r, Inr VUnit)]"
    using e(1) by simp
  show ?thesis
    by (intro conjI c(1) 1 i(1) i(2) 2 3 4 5 6 7 8 9 10 14 11 13 12 v)
qed

end
